theory Spec2Isabelle
  imports Main
begin

section \<open>Tokens (lexer.hpp)\<close>

text \<open>
  The enumeration \<open>TokenType\<close> of lexer.hpp, constructor by constructor. The keyword
  kinds \<open>INT\<close> and \<open>CHAR\<close> are written \<open>INT_KW\<close> and \<open>CHAR_KW\<close>: both names are
  taken by notation of the library (intersection over a family, characteristic of a
  ring).
\<close>

datatype TokenType =
    INT_KW | CHAR_KW | RETURN | FOR
  | IDENTIFIER
  | NUMBER_LITERAL | STRING_LITERAL
  | SEMICOLON | OPEN_PAREN | CLOSE_PAREN | OPEN_BRACE | CLOSE_BRACE
  | OPEN_ANGLE | CLOSE_ANGLE | EQUALS | PLUS | MINUS | STAR | SLASH
  | INCLUDE | END_OF_FILE

text \<open>
  \<open>struct Token { TokenType type; std::string value; int line; }\<close>. The fields carry
  the prefix \<open>t_\<close>. A \<open>std::string\<close> is a list of bytes, \<open>int\<close> is modelled as an
  unbounded integer: the counters of this program only count characters, tokens and
  lines of the input, so they stay far below \<open>2^31\<close> for every input shorter than
  two gigabytes, and no claim below is about longer inputs.
\<close>

record Token =
  t_type :: TokenType
  t_value :: string
  t_line :: int

subsection \<open>Token::to_string\<close>

text \<open>\<open>std::to_string(int)\<close>: decimal digits, with a minus sign for negative numbers.\<close>

fun digits_of_nat :: "nat \<Rightarrow> string" where
  "digits_of_nat n =
     (if n < 10 then [char_of (48 + n)]
      else digits_of_nat (n div 10) @ [char_of (48 + n mod 10)])"

definition std_to_string :: "int \<Rightarrow> string" where
  "std_to_string i =
     (if i < 0 then CHR ''-'' # digits_of_nat (nat (- i)) else digits_of_nat (nat i))"

fun type_str :: "TokenType \<Rightarrow> string" where
  "type_str INT_KW = ''INT''"
| "type_str CHAR_KW = ''CHAR''"
| "type_str RETURN = ''RETURN''"
| "type_str FOR = ''FOR''"
| "type_str IDENTIFIER = ''IDENTIFIER''"
| "type_str NUMBER_LITERAL = ''NUMBER_LITERAL''"
| "type_str STRING_LITERAL = ''STRING_LITERAL''"
| "type_str SEMICOLON = ''SEMICOLON''"
| "type_str OPEN_PAREN = ''OPEN_PAREN''"
| "type_str CLOSE_PAREN = ''CLOSE_PAREN''"
| "type_str OPEN_BRACE = ''OPEN_BRACE''"
| "type_str CLOSE_BRACE = ''CLOSE_BRACE''"
| "type_str OPEN_ANGLE = ''OPEN_ANGLE''"
| "type_str CLOSE_ANGLE = ''CLOSE_ANGLE''"
| "type_str EQUALS = ''EQUALS''"
| "type_str PLUS = ''PLUS''"
| "type_str MINUS = ''MINUS''"
| "type_str STAR = ''STAR''"
| "type_str SLASH = ''SLASH''"
| "type_str INCLUDE = ''INCLUDE''"
| "type_str END_OF_FILE = ''END_OF_FILE''"

definition to_string :: "Token \<Rightarrow> string" where
  "to_string t =
     ''Token [Type: '' @ type_str (t_type t) @ '', Value: '' @ [CHR 0x27] @ t_value t
       @ [CHR 0x27] @ '', Line: '' @ std_to_string (t_line t) @ '']''"

section \<open>The lexer (lexer.cpp)\<close>

text \<open>
  The global \<open>keywords\<close> table (here \<open>keywords_map\<close>, the plain name being a reserved
  word of the theory header). The \<open>std::unordered_map\<close> has four distinct keys, so an
  association list read with \<open>map_of\<close> is the same finite map.
\<close>

definition keywords_map :: "string \<rightharpoonup> TokenType" where
  "keywords_map = map_of [(''int'', INT_KW), (''char'', CHAR_KW), (''return'', RETURN), (''for'', FOR)]"

text \<open>
  The character classes of \<open><cctype>\<close> in the default "C" locale, on the byte value of
  the character: digits \<open>0-9\<close>, letters \<open>A-Z\<close> and \<open>a-z\<close>. Bytes from 128 on belong to no
  class (as a \<open>char\<close> they are negative, where the C standard leaves the call undefined
  and the C library answers with false).
\<close>

definition isdigit :: "char \<Rightarrow> bool" where
  "isdigit c = (48 \<le> (of_char c :: nat) \<and> (of_char c :: nat) \<le> 57)"

definition isalpha :: "char \<Rightarrow> bool" where
  "isalpha c = ((65 \<le> (of_char c :: nat) \<and> (of_char c :: nat) \<le> 90)
              \<or> (97 \<le> (of_char c :: nat) \<and> (of_char c :: nat) \<le> 122))"

definition isalnum :: "char \<Rightarrow> bool" where
  "isalnum c = (isalpha c \<or> isdigit c)"

text \<open>
  The state of a \<open>Lexer\<close> object: its three members, and the lines it has written to
  \<open>std::cerr\<close> so far (\<open>lex_cerr\<close>), one entry per line. The cursor \<open>m_current_pos\<close> is an
  \<open>int\<close> that starts at 0 and is decremented only directly after an increment, so it
  is a natural number here.
\<close>

record Lexer =
  m_source :: string
  m_current_pos :: nat
  m_line :: int
  lex_cerr :: "string list"

definition new_Lexer :: "string \<Rightarrow> Lexer" where
  "new_Lexer source = \<lparr>m_source = source, m_current_pos = 0, m_line = 1, lex_cerr = []\<rparr>"

text \<open>
  \<open>m_source[i]\<close>. Reading a \<open>std::string\<close> at its length gives the terminating NUL;
  the lexer never reads further out than that (every \<open>advance\<close> is guarded by a test
  that the cursor is before the end), and the model returns NUL there as well.
\<close>

definition char_at :: "string \<Rightarrow> nat \<Rightarrow> char" where
  "char_at s i = (if i < length s then s ! i else CHR 0x00)"

definition is_at_end :: "Lexer \<Rightarrow> bool" where
  "is_at_end lx = (m_current_pos lx \<ge> length (m_source lx))"

definition advance :: "Lexer \<Rightarrow> char \<times> Lexer" where
  "advance lx =
     (char_at (m_source lx) (m_current_pos lx), lx\<lparr>m_current_pos := m_current_pos lx + 1\<rparr>)"

definition peek :: "Lexer \<Rightarrow> char" where
  "peek lx = (if is_at_end lx then CHR 0x00 else char_at (m_source lx) (m_current_pos lx))"

text \<open>The two overloads of \<open>make_token\<close>: with a given text, and for a single character.\<close>

definition make_token :: "TokenType \<Rightarrow> string \<Rightarrow> Lexer \<Rightarrow> Token" where
  "make_token ty v lx = \<lparr>t_type = ty, t_value = v, t_line = m_line lx\<rparr>"

definition make_token1 :: "TokenType \<Rightarrow> Lexer \<Rightarrow> Token" where
  "make_token1 ty lx =
     \<lparr>t_type = ty, t_value = [char_at (m_source lx) (m_current_pos lx - 1)], t_line = m_line lx\<rparr>"

text \<open>\<open>m_source.substr(start, len)\<close>, for \<open>start\<close> within the string.\<close>

definition substr :: "string \<Rightarrow> nat \<Rightarrow> nat \<Rightarrow> string" where
  "substr s start len = take len (drop start s)"

subsection \<open>skip_whitespace_and_comments\<close>

text \<open>The inner loop of the comment case: \<open>while (peek() != '\n' && !is_at_end()) advance();\<close>\<close>

function skip_comment :: "Lexer \<Rightarrow> Lexer" where
  "skip_comment lx =
     (if peek lx \<noteq> CHR 0x0A \<and> \<not> is_at_end lx then skip_comment (snd (advance lx)) else lx)"
  by pat_completeness auto
termination
  by (relation "measure (\<lambda>lx. length (m_source lx) - m_current_pos lx)")
     (auto simp: is_at_end_def advance_def)

declare skip_comment.simps [simp del]

lemma skip_comment_source: "m_source (skip_comment lx) = m_source lx"
proof (induction lx rule: skip_comment.induct)
  case (1 lx)
  then show ?case
    by (subst skip_comment.simps) (simp add: advance_def)
qed

lemma skip_comment_pos: "m_current_pos lx \<le> m_current_pos (skip_comment lx)"
proof (induction lx rule: skip_comment.induct)
  case (1 lx)
  show ?case
  proof (cases "peek lx \<noteq> CHR 0x0A \<and> \<not> is_at_end lx")
    case True
    with 1 have "m_current_pos (snd (advance lx)) \<le> m_current_pos (skip_comment (snd (advance lx)))"
      by simp
    with True show ?thesis
      by (subst skip_comment.simps) (simp add: advance_def)
  next
    case False
    then show ?thesis
      by (subst skip_comment.simps) auto
  qed
qed

lemma skip_comment_progress:
  assumes "peek lx \<noteq> CHR 0x0A" and "\<not> is_at_end lx"
  shows "m_current_pos lx < m_current_pos (skip_comment lx)"
proof -
  have "skip_comment lx = skip_comment (snd (advance lx))"
    using assms by (subst skip_comment.simps) simp
  moreover have "m_current_pos (snd (advance lx)) \<le> m_current_pos (skip_comment (snd (advance lx)))"
    by (rule skip_comment_pos)
  ultimately show ?thesis by (simp add: advance_def)
qed

text \<open>
  The outer loop. Blank, carriage return and tab are consumed; a newline is consumed
  after \<open>m_line++\<close>; a slash followed by a slash starts a comment, which the inner loop
  consumes up to (not including) the newline; every other character, a lone slash
  included, ends the function.
\<close>

function skip_whitespace_and_comments :: "Lexer \<Rightarrow> Lexer" where
  "skip_whitespace_and_comments lx =
     (if is_at_end lx then lx
      else let c = peek lx in
        if c = CHR '' '' \<or> c = CHR 0x0D \<or> c = CHR 0x09 then
          skip_whitespace_and_comments (snd (advance lx))
        else if c = CHR 0x0A then
          skip_whitespace_and_comments (snd (advance (lx\<lparr>m_line := m_line lx + 1\<rparr>)))
        else if c = CHR ''/'' then
          (if m_current_pos lx + 1 < length (m_source lx)
              \<and> char_at (m_source lx) (m_current_pos lx + 1) = CHR ''/''
           then skip_whitespace_and_comments (skip_comment lx)
           else lx)
        else lx)"
  by pat_completeness auto
termination
proof (relation "measure (\<lambda>lx. length (m_source lx) - m_current_pos lx)", goal_cases)
  case 1
  show ?case by simp
next
  case (2 lx c)
  then show ?case by (simp add: is_at_end_def advance_def)
next
  case (3 lx c)
  then show ?case by (simp add: is_at_end_def advance_def)
next
  case (4 lx c)
  then have "m_current_pos lx < m_current_pos (skip_comment lx)"
    by (intro skip_comment_progress) auto
  with 4 show ?case
    by (auto simp: skip_comment_source is_at_end_def)
qed

declare skip_whitespace_and_comments.simps [simp del]

lemma skip_whitespace_and_comments_source:
  "m_source (skip_whitespace_and_comments lx) = m_source lx"
proof (induction lx rule: skip_whitespace_and_comments.induct)
  case (1 lx)
  then show ?case
    by (subst skip_whitespace_and_comments.simps)
       (simp add: advance_def Let_def skip_comment_source)
qed

lemma skip_whitespace_and_comments_pos:
  "m_current_pos lx \<le> m_current_pos (skip_whitespace_and_comments lx)"
proof (induction lx rule: skip_whitespace_and_comments.induct)
  case (1 lx)
  have c: "m_current_pos lx \<le> m_current_pos (skip_comment lx)"
    by (rule skip_comment_pos)
  show ?case
    using 1 c
    by (subst skip_whitespace_and_comments.simps)
       (auto simp: advance_def Let_def simp del: One_nat_def)
qed

subsection \<open>handle_identifier, handle_number, handle_string\<close>

lemma peek_at_end: "is_at_end lx \<Longrightarrow> peek lx = CHR 0x00"
  by (simp add: peek_def)

lemma isalnum_not_at_end: "isalnum (peek lx) \<or> peek lx = CHR ''_'' \<Longrightarrow> \<not> is_at_end lx"
  by (auto simp: peek_def isalnum_def isalpha_def isdigit_def)

lemma isdigit_not_at_end: "isdigit (peek lx) \<Longrightarrow> \<not> is_at_end lx"
  by (auto simp: peek_def isdigit_def)

text \<open>\<open>while (std::isalnum(peek()) || peek() == '_') advance();\<close>\<close>

function identifier_loop :: "Lexer \<Rightarrow> Lexer" where
  "identifier_loop lx =
     (if isalnum (peek lx) \<or> peek lx = CHR ''_'' then identifier_loop (snd (advance lx)) else lx)"
  by pat_completeness auto
termination
proof (relation "measure (\<lambda>lx. length (m_source lx) - m_current_pos lx)", goal_cases)
  case 1
  show ?case by simp
next
  case (2 lx)
  then have "\<not> is_at_end lx" by (rule isalnum_not_at_end)
  then show ?case by (simp add: is_at_end_def advance_def)
qed

declare identifier_loop.simps [simp del]

definition handle_identifier :: "Lexer \<Rightarrow> Token \<times> Lexer" where
  "handle_identifier lx =
     (let start = m_current_pos lx;
          lx' = identifier_loop lx;
          val = substr (m_source lx') start (m_current_pos lx' - start)
      in case keywords_map val of
           Some ty \<Rightarrow> (make_token ty val lx', lx')
         | None \<Rightarrow> (make_token IDENTIFIER val lx', lx'))"

text \<open>\<open>while (std::isdigit(peek())) advance();\<close>\<close>

function number_loop :: "Lexer \<Rightarrow> Lexer" where
  "number_loop lx = (if isdigit (peek lx) then number_loop (snd (advance lx)) else lx)"
  by pat_completeness auto
termination
proof (relation "measure (\<lambda>lx. length (m_source lx) - m_current_pos lx)", goal_cases)
  case 1
  show ?case by simp
next
  case (2 lx)
  then have "\<not> is_at_end lx" by (rule isdigit_not_at_end)
  then show ?case by (simp add: is_at_end_def advance_def)
qed

declare number_loop.simps [simp del]

definition handle_number :: "Lexer \<Rightarrow> Token \<times> Lexer" where
  "handle_number lx =
     (let start = m_current_pos lx;
          lx' = number_loop lx;
          val = substr (m_source lx') start (m_current_pos lx' - start)
      in (make_token NUMBER_LITERAL val lx', lx'))"

text \<open>
  \<open>while (peek() != '"' && !is_at_end()) { if (peek() == '\n') m_line++; advance(); }\<close>
\<close>

function string_loop :: "Lexer \<Rightarrow> Lexer" where
  "string_loop lx =
     (if peek lx \<noteq> CHR 0x22 \<and> \<not> is_at_end lx then
        string_loop (snd (advance (if peek lx = CHR 0x0A then lx\<lparr>m_line := m_line lx + 1\<rparr> else lx)))
      else lx)"
  by pat_completeness auto
termination
  by (relation "measure (\<lambda>lx. length (m_source lx) - m_current_pos lx)")
     (auto simp: is_at_end_def advance_def)

declare string_loop.simps [simp del]

text \<open>
  \<open>handle_string\<close> is entered with the cursor after the opening quote. At the end of the
  input it writes the "Unterminated string" line to \<open>std::cerr\<close> and returns an
  \<open>END_OF_FILE\<close> token with the text \<open>ERROR\<close>; otherwise it consumes the closing quote
  and returns the literal.
\<close>

definition handle_string :: "Lexer \<Rightarrow> Token \<times> Lexer" where
  "handle_string lx =
     (let start = m_current_pos lx;
          lx' = string_loop lx
      in if is_at_end lx' then
           (let lx'' = lx'\<lparr>lex_cerr := lex_cerr lx' @
                  [''Lexer Error: Unterminated string on line '' @ std_to_string (m_line lx')]\<rparr>
            in (make_token END_OF_FILE ''ERROR'' lx'', lx''))
         else
           (let val = substr (m_source lx') start (m_current_pos lx' - start);
                lx'' = snd (advance lx')
            in (make_token STRING_LITERAL val lx'', lx'')))"

subsection \<open>tokenize\<close>

text \<open>
  The \<open>switch (c)\<close> of the main loop, entered after \<open>char c = advance();\<close>, with the
  vector \<open>tokens\<close> passed in and returned. The cases are tried in the order of the
  source; \<open>'/'\<close> has no case of its own and falls to \<open>default\<close>.
\<close>

definition tokenize_switch :: "char \<Rightarrow> Lexer \<Rightarrow> Token list \<Rightarrow> Token list \<times> Lexer" where
  "tokenize_switch c lx tokens =
     (if c = CHR '';'' then (tokens @ [make_token1 SEMICOLON lx], lx)
      else if c = CHR ''('' then (tokens @ [make_token1 OPEN_PAREN lx], lx)
      else if c = CHR '')'' then (tokens @ [make_token1 CLOSE_PAREN lx], lx)
      else if c = CHR ''{'' then (tokens @ [make_token1 OPEN_BRACE lx], lx)
      else if c = CHR ''}'' then (tokens @ [make_token1 CLOSE_BRACE lx], lx)
      else if c = CHR ''<'' then (tokens @ [make_token1 OPEN_ANGLE lx], lx)
      else if c = CHR ''>'' then (tokens @ [make_token1 CLOSE_ANGLE lx], lx)
      else if c = CHR ''='' then (tokens @ [make_token1 EQUALS lx], lx)
      else if c = CHR ''+'' then (tokens @ [make_token1 PLUS lx], lx)
      else if c = CHR ''-'' then (tokens @ [make_token1 MINUS lx], lx)
      else if c = CHR ''*'' then (tokens @ [make_token1 STAR lx], lx)
      else if c = CHR ''#'' then
        (if peek lx = CHR ''i'' then
           (let lx' = lx\<lparr>m_current_pos := m_current_pos lx + 6\<rparr>
            in (tokens @ [make_token INCLUDE ''#include'' lx'], lx'))
         else (tokens, lx))
      else if c = CHR 0x22 then
        (case handle_string lx of (t, lx') \<Rightarrow> (tokens @ [t], lx'))
      else if isdigit c then
        (case handle_number (lx\<lparr>m_current_pos := m_current_pos lx - 1\<rparr>) of
           (t, lx') \<Rightarrow> (tokens @ [t], lx'))
      else if isalpha c \<or> c = CHR ''_'' then
        (case handle_identifier (lx\<lparr>m_current_pos := m_current_pos lx - 1\<rparr>) of
           (t, lx') \<Rightarrow> (tokens @ [t], lx'))
      else
        (tokens, lx\<lparr>lex_cerr := lex_cerr lx @
           [''Lexer Error: Unknown character '' @ [CHR 0x27, c, CHR 0x27] @ '' on line ''
              @ std_to_string (m_line lx)]\<rparr>))"

lemma identifier_loop_source: "m_source (identifier_loop lx) = m_source lx"
proof (induction lx rule: identifier_loop.induct)
  case (1 lx)
  then show ?case
    by (subst identifier_loop.simps) (simp add: advance_def)
qed

lemma identifier_loop_pos: "m_current_pos lx \<le> m_current_pos (identifier_loop lx)"
proof (induction lx rule: identifier_loop.induct)
  case (1 lx)
  then show ?case
    by (subst identifier_loop.simps) (auto simp: advance_def)
qed

lemma identifier_loop_progress:
  assumes "isalnum (peek lx) \<or> peek lx = CHR ''_''"
  shows "m_current_pos lx < m_current_pos (identifier_loop lx)"
proof -
  have "identifier_loop lx = identifier_loop (snd (advance lx))"
    using assms by (subst identifier_loop.simps) simp
  moreover have "m_current_pos (snd (advance lx))
      \<le> m_current_pos (identifier_loop (snd (advance lx)))"
    by (rule identifier_loop_pos)
  ultimately show ?thesis by (simp add: advance_def)
qed

lemma number_loop_source: "m_source (number_loop lx) = m_source lx"
proof (induction lx rule: number_loop.induct)
  case (1 lx)
  then show ?case
    by (subst number_loop.simps) (simp add: advance_def)
qed

lemma number_loop_pos: "m_current_pos lx \<le> m_current_pos (number_loop lx)"
proof (induction lx rule: number_loop.induct)
  case (1 lx)
  then show ?case
    by (subst number_loop.simps) (auto simp: advance_def)
qed

lemma number_loop_progress:
  assumes "isdigit (peek lx)"
  shows "m_current_pos lx < m_current_pos (number_loop lx)"
proof -
  have "number_loop lx = number_loop (snd (advance lx))"
    using assms by (subst number_loop.simps) simp
  moreover have "m_current_pos (snd (advance lx)) \<le> m_current_pos (number_loop (snd (advance lx)))"
    by (rule number_loop_pos)
  ultimately show ?thesis by (simp add: advance_def)
qed

lemma string_loop_source: "m_source (string_loop lx) = m_source lx"
proof (induction lx rule: string_loop.induct)
  case (1 lx)
  then show ?case
    by (subst string_loop.simps) (simp add: advance_def)
qed

lemma string_loop_pos: "m_current_pos lx \<le> m_current_pos (string_loop lx)"
proof (induction lx rule: string_loop.induct)
  case (1 lx)
  then show ?case
    by (subst string_loop.simps) (auto simp: advance_def)
qed

lemma handle_identifier_source: "m_source (snd (handle_identifier lx)) = m_source lx"
  by (simp add: handle_identifier_def Let_def identifier_loop_source split: option.split)

lemma handle_identifier_pos:
  "m_current_pos (snd (handle_identifier lx)) = m_current_pos (identifier_loop lx)"
  by (simp add: handle_identifier_def Let_def split: option.split)

lemma handle_number_source: "m_source (snd (handle_number lx)) = m_source lx"
  by (simp add: handle_number_def Let_def number_loop_source)

lemma handle_number_pos:
  "m_current_pos (snd (handle_number lx)) = m_current_pos (number_loop lx)"
  by (simp add: handle_number_def Let_def)

lemma handle_string_source: "m_source (snd (handle_string lx)) = m_source lx"
  by (simp add: handle_string_def Let_def string_loop_source advance_def)

lemma handle_string_pos: "m_current_pos lx \<le> m_current_pos (snd (handle_string lx))"
  using string_loop_pos [of lx]
  by (simp add: handle_string_def Let_def advance_def)

text \<open>
  One round of the main loop keeps the source and moves the cursor forward: the facts
  behind the termination of \<open>tokenize\<close>.
\<close>

lemma peek_backtrack:
  assumes "\<not> is_at_end lx"
  shows "peek ((snd (advance lx))\<lparr>m_current_pos := m_current_pos (snd (advance lx)) - 1\<rparr>)
           = fst (advance lx)"
  using assms by (simp add: advance_def peek_def is_at_end_def)

lemma tokenize_switch_source:
  "m_source (snd (tokenize_switch c lx tokens)) = m_source lx"
  using handle_string_source [of lx]
    handle_number_source [of "lx\<lparr>m_current_pos := m_current_pos lx - 1\<rparr>"]
    handle_identifier_source [of "lx\<lparr>m_current_pos := m_current_pos lx - 1\<rparr>"]
  by (simp add: tokenize_switch_def Let_def case_prod_beta)

lemma tokenize_switch_progress:
  assumes "\<not> is_at_end lx"
  shows "m_current_pos lx
           < m_current_pos (snd (tokenize_switch (fst (advance lx)) (snd (advance lx)) tokens))"
proof -
  let ?c = "fst (advance lx)" and ?lx = "snd (advance lx)"
  let ?prev = "?lx\<lparr>m_current_pos := m_current_pos ?lx - 1\<rparr>"
  have p: "m_current_pos ?lx = m_current_pos lx + 1"
    by (simp add: advance_def)
  have b: "m_current_pos ?prev = m_current_pos lx"
    by (simp add: advance_def)
  have pk: "peek ?prev = ?c"
    using assms by (rule peek_backtrack)
  have s: "m_current_pos ?lx \<le> m_current_pos (snd (handle_string ?lx))"
    by (rule handle_string_pos)
  have n: "isdigit ?c \<Longrightarrow> m_current_pos lx < m_current_pos (snd (handle_number ?prev))"
    using number_loop_progress [of ?prev] pk b by (simp add: handle_number_pos)
  have i: "isalpha ?c \<or> ?c = CHR ''_''
      \<Longrightarrow> m_current_pos lx < m_current_pos (snd (handle_identifier ?prev))"
    using identifier_loop_progress [of ?prev] pk b
    by (auto simp: handle_identifier_pos isalnum_def)
  show ?thesis
    unfolding tokenize_switch_def using p s n i
    by (simp add: Let_def case_prod_beta)
qed

text \<open>
  The \<open>while (!is_at_end())\<close> loop of \<open>tokenize\<close>: skip blanks and comments, leave the loop
  at the end of the input, otherwise read one character and run the switch on it.
\<close>

function tokenize_loop :: "Lexer \<Rightarrow> Token list \<Rightarrow> Token list \<times> Lexer" where
  "tokenize_loop lx tokens =
     (if is_at_end lx then (tokens, lx)
      else let lx1 = skip_whitespace_and_comments lx in
        if is_at_end lx1 then (tokens, lx1)
        else (case advance lx1 of (c, lx2) \<Rightarrow>
                (case tokenize_switch c lx2 tokens of (tokens', lx3) \<Rightarrow>
                   tokenize_loop lx3 tokens')))"
  by pat_completeness auto
termination
proof (relation "measure (\<lambda>(lx, tokens). length (m_source lx) - m_current_pos lx)", goal_cases)
  case 1
  show ?case by simp
next
  case (2 lx tokens lx1 c lx2 tokens' lx3)
  have c: "c = fst (advance lx1)" and l: "lx2 = snd (advance lx1)"
    using 2(4) by (metis fst_conv, metis snd_conv)
  have l3: "lx3 = snd (tokenize_switch c lx2 tokens)"
    using 2(5) by (metis snd_conv)
  have "m_current_pos lx1 < m_current_pos lx3"
    unfolding l3 c l using 2(3) by (rule tokenize_switch_progress)
  moreover have "m_current_pos lx \<le> m_current_pos lx1"
    unfolding 2(2) by (rule skip_whitespace_and_comments_pos)
  moreover have "m_source lx3 = m_source lx"
    unfolding l3 l 2(2)
    by (simp add: tokenize_switch_source advance_def skip_whitespace_and_comments_source)
  moreover have "m_current_pos lx < length (m_source lx)"
    using 2(1) by (simp add: is_at_end_def)
  ultimately show ?case by simp
qed

declare tokenize_loop.simps [simp del]

text \<open>
  \<open>Lexer::tokenize\<close> on a lexer object: the loop on an empty vector, then the final
  \<open>END_OF_FILE\<close> token with empty text. \<open>tokenize\<close> is the call as \<open>main\<close> makes it: a
  fresh \<open>Lexer\<close> on the source text, and its token vector.
\<close>

definition Lexer_tokenize :: "Lexer \<Rightarrow> Token list \<times> Lexer" where
  "Lexer_tokenize lx =
     (case tokenize_loop lx [] of (tokens, lx') \<Rightarrow>
        (tokens @ [make_token END_OF_FILE [] lx'], lx'))"

definition tokenize :: "string \<Rightarrow> Token list" where
  "tokenize source = fst (Lexer_tokenize (new_Lexer source))"

section \<open>The syntax tree (parser.hpp)\<close>

text \<open>
  The two class hierarchies as datatypes, one constructor per concrete node class. A
  \<open>std::unique_ptr\<close> to a node is an \<open>option\<close>: \<open>None\<close> is the null pointer. The body of a
  \<open>FunctionDefNode\<close> is a pointer to a \<open>BlockStmtNode\<close>, whose only member is its vector
  of statements, so it is an optional list of optional statements.
\<close>

datatype ExprNode = NumberLiteralNode string

datatype StmtNode =
    BlockStmtNode "StmtNode option list"
  | ReturnStmtNode "ExprNode option"
  | FunctionDefNode string string "StmtNode option list option"

record ProgramNode =
  statements :: "StmtNode option list"

section \<open>The parser (parser.cpp)\<close>

text \<open>
  The state of a \<open>Parser\<close> object: the token vector, the cursor (\<open>m_current_pos\<close> in the
  source, \<open>m_pos\<close> here, the lexer's record having taken the name), and the lines
  written to \<open>std::cerr\<close>.
\<close>

record Parser =
  m_tokens :: "Token list"
  m_pos :: nat
  parse_cerr :: "string list"

definition new_Parser :: "Token list \<Rightarrow> Parser" where
  "new_Parser tokens = \<lparr>m_tokens = tokens, m_pos = 0, parse_cerr = []\<rparr>"

text \<open>
  What a member function of the parser can do: return a value and leave a new state,
  throw a \<open>std::runtime_error\<close> with a message, or read \<open>m_tokens\<close> outside its bounds,
  which is undefined behaviour in C++ and ends the model's run with \<open>OutOfRange\<close>.
\<close>

datatype 'a outcome = Done 'a Parser | Raised string Parser | OutOfRange

text \<open>Sequencing: the second step runs on the value and state of the first.\<close>

fun then_do :: "'a outcome \<Rightarrow> ('a \<Rightarrow> Parser \<Rightarrow> 'b outcome) \<Rightarrow> 'b outcome" where
  "then_do (Done x st) f = f x st"
| "then_do (Raised msg st) f = Raised msg st"
| "then_do OutOfRange f = OutOfRange"

lemma then_do_cong [fundef_cong]:
  assumes "m = m'" and "\<And>x st. m' = Done x st \<Longrightarrow> f x st = f' x st"
  shows "then_do m f = then_do m' f'"
  using assms by (cases m') auto

text \<open>\<open>std::cerr << ... << std::endl;\<close> in a member function of the parser.\<close>

definition cerr_line :: "string \<Rightarrow> Parser \<Rightarrow> Parser" where
  "cerr_line text st = st\<lparr>parse_cerr := parse_cerr st @ [text]\<rparr>"

lemma cerr_line_fields [simp]:
  "m_tokens (cerr_line text st) = m_tokens st"
  "m_pos (cerr_line text st) = m_pos st"
  "parse_cerr (cerr_line text st) = parse_cerr st @ [text]"
  by (simp_all add: cerr_line_def)

subsection \<open>Helper functions\<close>

text \<open>\<open>return m_tokens[m_current_pos];\<close>\<close>

definition Parser_peek :: "Parser \<Rightarrow> Token outcome" where
  "Parser_peek st =
     (if m_pos st < length (m_tokens st) then Done (m_tokens st ! m_pos st) st else OutOfRange)"

definition Parser_is_at_end :: "Parser \<Rightarrow> bool outcome" where
  "Parser_is_at_end st = then_do (Parser_peek st) (\<lambda>t st. Done (t_type t = END_OF_FILE) st)"

text \<open>
  \<open>if (!is_at_end()) m_current_pos++; return m_tokens[m_current_pos - 1];\<close> The index
  \<open>m_current_pos - 1\<close> is \<open>-1\<close> when the cursor is \<open>0\<close>, which is out of range too.
\<close>

definition Parser_advance :: "Parser \<Rightarrow> Token outcome" where
  "Parser_advance st =
     then_do (Parser_is_at_end st) (\<lambda>e st.
       let st' = (if \<not> e then st\<lparr>m_pos := m_pos st + 1\<rparr> else st)
       in if 1 \<le> m_pos st' \<and> m_pos st' - 1 < length (m_tokens st')
          then Done (m_tokens st' ! (m_pos st' - 1)) st'
          else OutOfRange)"

definition check :: "TokenType \<Rightarrow> Parser \<Rightarrow> bool outcome" where
  "check ty st =
     then_do (Parser_is_at_end st) (\<lambda>e st.
       if e then Done False st
       else then_do (Parser_peek st) (\<lambda>t st. Done (t_type t = ty) st))"

definition expect :: "TokenType \<Rightarrow> string \<Rightarrow> Parser \<Rightarrow> Token outcome" where
  "expect ty error_message st =
     then_do (check ty st) (\<lambda>b st. if b then Parser_advance st else Raised error_message st)"

subsection \<open>Grammar functions\<close>

definition parse_expression :: "Parser \<Rightarrow> ExprNode option outcome" where
  "parse_expression st =
     then_do (check NUMBER_LITERAL st) (\<lambda>b st.
       if b then
         then_do (Parser_advance st) (\<lambda>num st. Done (Some (NumberLiteralNode (t_value num))) st)
       else Raised ''Expected an expression (e.g., a number).'' st)"

definition parse_return_statement :: "Parser \<Rightarrow> StmtNode option outcome" where
  "parse_return_statement st =
     then_do (Parser_advance st) (\<lambda>_ st.
     then_do (parse_expression st) (\<lambda>expr st.
     then_do (expect SEMICOLON (''Expected '' @ [CHR 0x27] @ '';'' @ [CHR 0x27] @ '' after return value.'') st) (\<lambda>_ st.
       Done (Some (ReturnStmtNode expr)) st)))"

text \<open>
  A statement that does not start with \<open>return\<close>: one token is consumed, a warning with
  its \<open>to_string\<close> goes to \<open>std::cerr\<close>, and the null pointer is returned.
\<close>

definition parse_statement :: "Parser \<Rightarrow> StmtNode option outcome" where
  "parse_statement st =
     then_do (check RETURN st) (\<lambda>b st.
       if b then parse_return_statement st
       else then_do (Parser_advance st) (\<lambda>t st.
         Done None
           (cerr_line (''Parser Warning: Skipping unknown token in block: '' @ to_string t) st)))"

subsection \<open>What a step that returns has done\<close>

lemma then_do_Done:
  "then_do m f = Done y st'' \<longleftrightarrow> (\<exists>x st'. m = Done x st' \<and> f x st' = Done y st'')"
  by (cases m) auto

lemma Parser_peek_Done:
  "Parser_peek st = Done t st' \<longleftrightarrow>
     st' = st \<and> m_pos st < length (m_tokens st) \<and> t = m_tokens st ! m_pos st"
  by (auto simp: Parser_peek_def)

lemma Parser_is_at_end_Done:
  "Parser_is_at_end st = Done e st' \<longleftrightarrow>
     st' = st \<and> m_pos st < length (m_tokens st)
       \<and> e = (t_type (m_tokens st ! m_pos st) = END_OF_FILE)"
  by (auto simp: Parser_is_at_end_def then_do_Done Parser_peek_Done)

lemma check_Done:
  "check ty st = Done b st' \<longleftrightarrow>
     st' = st \<and> m_pos st < length (m_tokens st)
       \<and> b = (t_type (m_tokens st ! m_pos st) \<noteq> END_OF_FILE
              \<and> t_type (m_tokens st ! m_pos st) = ty)"
  by (auto simp: check_def then_do_Done Parser_is_at_end_Done Parser_peek_Done)

lemma Parser_advance_Done:
  "Parser_advance st = Done t st' \<longleftrightarrow>
     m_pos st < length (m_tokens st) \<and>
     (if t_type (m_tokens st ! m_pos st) \<noteq> END_OF_FILE
      then st' = st\<lparr>m_pos := m_pos st + 1\<rparr> \<and> t = m_tokens st ! m_pos st
      else st' = st \<and> 1 \<le> m_pos st \<and> t = m_tokens st ! (m_pos st - 1))"
  by (auto simp: Parser_advance_def then_do_Done Parser_is_at_end_Done Let_def)

lemma expect_Done:
  "expect ty msg st = Done t st' \<longleftrightarrow>
     m_pos st < length (m_tokens st) \<and> t_type (m_tokens st ! m_pos st) \<noteq> END_OF_FILE
       \<and> t_type (m_tokens st ! m_pos st) = ty
       \<and> st' = st\<lparr>m_pos := m_pos st + 1\<rparr> \<and> t = m_tokens st ! m_pos st"
  by (auto simp: expect_def then_do_Done check_Done Parser_advance_Done)

lemma parse_expression_Done:
  "parse_expression st = Done e st' \<longleftrightarrow>
     m_pos st < length (m_tokens st) \<and> t_type (m_tokens st ! m_pos st) = NUMBER_LITERAL
       \<and> st' = st\<lparr>m_pos := m_pos st + 1\<rparr>
       \<and> e = Some (NumberLiteralNode (t_value (m_tokens st ! m_pos st)))"
  by (auto simp: parse_expression_def then_do_Done check_Done Parser_advance_Done)

lemma parse_return_statement_Done:
  assumes "parse_return_statement st = Done s st'"
    and "t_type (m_tokens st ! m_pos st) \<noteq> END_OF_FILE"
  shows "st' = st\<lparr>m_pos := m_pos st + 3\<rparr>
     \<and> s = Some (ReturnStmtNode (Some (NumberLiteralNode (t_value (m_tokens st ! (m_pos st + 1))))))"
  using assms
  by (auto simp: parse_return_statement_def then_do_Done Parser_advance_Done
     parse_expression_Done expect_Done)

lemma parse_statement_Done:
  assumes "parse_statement st = Done s st'"
    and "t_type (m_tokens st ! m_pos st) \<noteq> END_OF_FILE"
  shows "m_tokens st' = m_tokens st \<and> m_pos st < m_pos st'"
  using assms parse_return_statement_Done [of st s st']
  by (auto simp: parse_statement_def then_do_Done check_Done Parser_advance_Done
      split: if_splits)

subsection \<open>Blocks, function definitions, declarations\<close>

text \<open>
  The loop of \<open>parse_block_statement\<close>:
  \<open>while (!check(CLOSE_BRACE) && !is_at_end()) { auto stmt = parse_statement();
  if (stmt) block->statements.push_back(std::move(stmt)); }\<close>.
  \<open>is_at_end\<close> is not evaluated when \<open>check\<close> has answered true.
\<close>

function block_loop :: "StmtNode option list \<Rightarrow> Parser \<Rightarrow> StmtNode option list outcome" where
  "block_loop stmts st =
     then_do (check CLOSE_BRACE st) (\<lambda>cb st.
     then_do (if cb then Done False st
              else then_do (Parser_is_at_end st) (\<lambda>e st. Done (\<not> e) st)) (\<lambda>go st.
       if go then
         then_do (parse_statement st) (\<lambda>stmt st.
           block_loop (case stmt of Some _ \<Rightarrow> stmts @ [stmt] | None \<Rightarrow> stmts) st)
       else Done stmts st))"
  by pat_completeness auto
termination
proof (relation "measure (\<lambda>(stmts, st). length (m_tokens st) - m_pos st)", goal_cases)
  case 1
  show ?case by simp
next
  case (2 stmts st cb st1 go st2 stmt st3)
  from 2(1) have s1: "st1 = st" and r: "m_pos st < length (m_tokens st)"
    by (simp_all add: check_Done)
  from 2(2,3) s1 have s2: "st2 = st"
    and ne: "t_type (m_tokens st ! m_pos st) \<noteq> END_OF_FILE"
    by (auto simp: then_do_Done Parser_is_at_end_Done split: if_splits)
  from 2(4) s2 ne have "m_tokens st3 = m_tokens st \<and> m_pos st < m_pos st3"
    by (auto dest: parse_statement_Done)
  with r show ?case by auto
qed

declare block_loop.simps [simp del]

definition parse_block_statement :: "Parser \<Rightarrow> StmtNode option list option outcome" where
  "parse_block_statement st =
     then_do (expect OPEN_BRACE (''Expected '' @ [CHR 0x27] @ ''{'' @ [CHR 0x27] @ '' to begin a block.'') st) (\<lambda>_ st.
     then_do (block_loop [] st) (\<lambda>stmts st.
     then_do (expect CLOSE_BRACE (''Expected '' @ [CHR 0x27] @ ''}'' @ [CHR 0x27] @ '' to end a block.'') st) (\<lambda>_ st.
       Done (Some stmts) st)))"

definition parse_function_definition :: "Parser \<Rightarrow> StmtNode option outcome" where
  "parse_function_definition st =
     then_do (Parser_advance st) (\<lambda>type st.
     then_do (expect IDENTIFIER ''Expected function name.'' st) (\<lambda>name st.
     then_do (expect OPEN_PAREN (''Expected '' @ [CHR 0x27] @ ''('' @ [CHR 0x27] @ '' after function name.'') st) (\<lambda>_ st.
     then_do (expect CLOSE_PAREN (''Expected '' @ [CHR 0x27] @ '')'' @ [CHR 0x27] @ '' after parameters.'') st) (\<lambda>_ st.
     then_do (parse_block_statement st) (\<lambda>body st.
       Done (Some (FunctionDefNode (t_value type) (t_value name) body)) st)))))"

text \<open>
  \<open>check(TokenType::INT) && m_tokens[m_current_pos + 1].type == TokenType::IDENTIFIER\<close>:
  the second operand, a read of the vector one place after the cursor, is evaluated
  only when the first is true. Otherwise one token is consumed with a warning, and the
  null pointer is returned.
\<close>

definition parse_declaration :: "Parser \<Rightarrow> StmtNode option outcome" where
  "parse_declaration st =
     then_do (check INT_KW st) (\<lambda>b st.
     then_do (if b then
                (if m_pos st + 1 < length (m_tokens st)
                 then Done (t_type (m_tokens st ! (m_pos st + 1)) = IDENTIFIER) st
                 else OutOfRange)
              else Done False st) (\<lambda>is_function st.
       if is_function then parse_function_definition st
       else then_do (Parser_advance st) (\<lambda>t st.
         Done None
           (cerr_line (''Parser Warning: Skipping unknown top-level token: '' @ to_string t) st))))"

lemma block_loop_Done:
  "block_loop stmts st = Done r st' \<Longrightarrow> m_tokens st' = m_tokens st \<and> m_pos st \<le> m_pos st'"
proof (induction stmts st rule: block_loop.induct)
  case (1 stmts st)
  from "1.prems" obtain cb go where
    c: "check CLOSE_BRACE st = Done cb st"
    and g: "(if cb then Done False st
             else then_do (Parser_is_at_end st) (\<lambda>e st. Done (\<not> e) st)) = Done go st"
    and k: "(if go then
               then_do (parse_statement st) (\<lambda>stmt st.
                 block_loop (case stmt of Some _ \<Rightarrow> stmts @ [stmt] | None \<Rightarrow> stmts) st)
             else Done stmts st) = Done r st'"
    by (subst (asm) block_loop.simps)
       (auto simp: then_do_Done check_Done Parser_is_at_end_Done split: if_splits)
  show ?case
  proof (cases go)
    case False
    with k show ?thesis by simp
  next
    case True
    with k obtain stmt st3 where
      p: "parse_statement st = Done stmt st3"
      and b: "block_loop (case stmt of Some _ \<Rightarrow> stmts @ [stmt] | None \<Rightarrow> stmts) st3 = Done r st'"
      by (auto simp: then_do_Done)
    from g True have ne: "t_type (m_tokens st ! m_pos st) \<noteq> END_OF_FILE"
      by (auto simp: then_do_Done Parser_is_at_end_Done split: if_splits)
    from p ne have m: "m_tokens st3 = m_tokens st \<and> m_pos st < m_pos st3"
      by (rule parse_statement_Done)
    from "1.IH" [OF c g True p b] m show ?thesis by simp
  qed
qed

lemma parse_block_statement_Done:
  "parse_block_statement st = Done r st' \<Longrightarrow> m_tokens st' = m_tokens st \<and> m_pos st < m_pos st'"
  by (auto simp: parse_block_statement_def then_do_Done expect_Done dest!: block_loop_Done)

lemma Parser_advance_mono:
  "Parser_advance st = Done t st' \<Longrightarrow> m_tokens st' = m_tokens st \<and> m_pos st \<le> m_pos st'"
  by (auto simp: Parser_advance_Done split: if_splits)

lemma expect_mono:
  "expect ty msg st = Done t st' \<Longrightarrow> m_tokens st' = m_tokens st \<and> m_pos st < m_pos st'"
  by (auto simp: expect_Done)

lemma parse_function_definition_Done:
  assumes "parse_function_definition st = Done r st'"
  shows "m_tokens st' = m_tokens st \<and> m_pos st < m_pos st'"
proof -
  from assms obtain ty st1 name m1 st2 p1 m2 st3 p2 m3 st4 p3 body where
    a: "Parser_advance st = Done ty st1"
    and b: "expect IDENTIFIER m1 st1 = Done name st2"
    and c: "expect OPEN_PAREN m2 st2 = Done p1 st3"
    and d: "expect CLOSE_PAREN m3 st3 = Done p2 st4"
    and e: "parse_block_statement st4 = Done body st'"
    by (auto simp: parse_function_definition_def then_do_Done)
  show ?thesis
    using Parser_advance_mono [OF a] expect_mono [OF b] expect_mono [OF c] expect_mono [OF d]
      parse_block_statement_Done [OF e]
    by simp
qed

lemma parse_declaration_Done:
  assumes "parse_declaration st = Done d st'"
    and "t_type (m_tokens st ! m_pos st) \<noteq> END_OF_FILE"
  shows "m_tokens st' = m_tokens st \<and> m_pos st < m_pos st'"
proof -
  from assms(1) have "parse_function_definition st = Done d st'
      \<or> (\<exists>t st1. Parser_advance st = Done t st1
            \<and> m_tokens st' = m_tokens st1 \<and> m_pos st' = m_pos st1)"
    by (auto simp: parse_declaration_def then_do_Done check_Done split: if_splits)
  then show ?thesis
  proof
    assume "parse_function_definition st = Done d st'"
    then show ?thesis by (rule parse_function_definition_Done)
  next
    assume "\<exists>t st1. Parser_advance st = Done t st1
            \<and> m_tokens st' = m_tokens st1 \<and> m_pos st' = m_pos st1"
    with assms(2) show ?thesis
      by (auto simp: Parser_advance_Done)
  qed
qed

subsection \<open>parse\<close>

text \<open>
  The loop of \<open>parse\<close>. Whatever \<open>parse_declaration\<close> returns is pushed onto
  \<open>program.statements\<close>, the null pointer of a skipped token included. A thrown
  \<open>std::runtime_error\<close> is caught: its message goes to \<open>std::cerr\<close> and the loop is left
  with the statements pushed so far.
\<close>

function parse_loop :: "ProgramNode \<Rightarrow> Parser \<Rightarrow> ProgramNode outcome" where
  "parse_loop program st =
     then_do (Parser_is_at_end st) (\<lambda>e st.
       if \<not> e then
         (case parse_declaration st of
            Done d st' \<Rightarrow> parse_loop (program\<lparr>statements := statements program @ [d]\<rparr>) st'
          | Raised msg st' \<Rightarrow>
              Done program (cerr_line (''Parse Error: '' @ msg) st')
          | OutOfRange \<Rightarrow> OutOfRange)
       else Done program st)"
  by pat_completeness auto
termination
proof (relation "measure (\<lambda>(program, st). length (m_tokens st) - m_pos st)", goal_cases)
  case 1
  show ?case by simp
next
  case (2 program st e st1 d st2)
  from 2(1,2) have s1: "st1 = st" and r: "m_pos st < length (m_tokens st)"
    and ne: "t_type (m_tokens st ! m_pos st) \<noteq> END_OF_FILE"
    by (simp_all add: Parser_is_at_end_Done)
  from 2(3) s1 ne have "m_tokens st2 = m_tokens st \<and> m_pos st < m_pos st2"
    by (auto dest: parse_declaration_Done)
  with r show ?case by auto
qed

declare parse_loop.simps [simp del]

definition Parser_parse :: "Parser \<Rightarrow> ProgramNode outcome" where
  "Parser_parse st = parse_loop \<lparr>statements = []\<rparr> st"

text \<open>The call as \<open>main\<close> makes it: a fresh \<open>Parser\<close> on the token vector.\<close>

definition parse :: "Token list \<Rightarrow> ProgramNode outcome" where
  "parse tokens = Parser_parse (new_Parser tokens)"

section \<open>The code generator (codegen.cpp)\<close>

text \<open>
  The state of a \<open>CodeGenerator\<close> object: the tree it owns, the contents of the
  \<open>std::stringstream m_output\<close>, and the lines written to \<open>std::cerr\<close>.
\<close>

record CodeGenerator =
  m_ast :: ProgramNode
  m_output :: string
  gen_cerr :: "string list"

definition new_CodeGenerator :: "ProgramNode \<Rightarrow> CodeGenerator" where
  "new_CodeGenerator ast = \<lparr>m_ast = ast, m_output = [], gen_cerr = []\<rparr>"

text \<open>\<open>m_output << text;\<close>\<close>

definition emit :: "string \<Rightarrow> CodeGenerator \<Rightarrow> CodeGenerator" where
  "emit text cg = cg\<lparr>m_output := m_output cg @ text\<rparr>"

text \<open>
  \<open>visit(ExprNode*)\<close> and \<open>visit(NumberLiteralNode*)\<close>. A \<open>dynamic_cast\<close> of the null
  pointer gives the null pointer, so an absent expression takes the warning branch.
\<close>

fun visit_ExprNode :: "ExprNode option \<Rightarrow> CodeGenerator \<Rightarrow> CodeGenerator" where
  "visit_ExprNode (Some (NumberLiteralNode val)) cg = emit (''  mov rax, '' @ val @ ''\<newline>'') cg"
| "visit_ExprNode None cg =
     cg\<lparr>gen_cerr := gen_cerr cg @ [''CodeGen Warning: Unknown expression type!'']\<rparr>"

text \<open>
  The statement visitors. \<open>visit_StmtNode\<close> is \<open>visit(StmtNode*)\<close> with the three
  overloads it dispatches to written into its equations; \<open>visit_statements\<close> is the
  \<open>for\<close> loop over a vector of statements, which \<open>generate\<close> and \<open>visit(BlockStmtNode*)\<close>
  both run. \<open>visit(FunctionDefNode*)\<close> passes \<open>node->body.get()\<close> to
  \<open>visit(BlockStmtNode*)\<close>, which reads \<open>node->statements\<close> with no null test: on a
  function without a body the run ends in a null dereference, the result \<open>None\<close>.
\<close>

fun visit_StmtNode :: "StmtNode option \<Rightarrow> CodeGenerator \<Rightarrow> CodeGenerator option"
  and visit_statements :: "StmtNode option list \<Rightarrow> CodeGenerator \<Rightarrow> CodeGenerator option"
where
  "visit_StmtNode None cg = Some cg"
| "visit_StmtNode (Some (FunctionDefNode return_type name body)) cg =
     (let cg1 = emit (name @ '':\<newline>'') cg;
          cg2 = emit ''  push rbp\<newline>'' cg1;
          cg3 = emit ''  mov rbp, rsp\<newline>'' cg2
      in case body of None \<Rightarrow> None | Some stmts \<Rightarrow> visit_statements stmts cg3)"
| "visit_StmtNode (Some (ReturnStmtNode expression)) cg =
     (let cg1 = visit_ExprNode expression cg;
          cg2 = emit ''  mov rsp, rbp\<newline>'' cg1;
          cg3 = emit ''  pop rbp\<newline>'' cg2
      in Some (emit ''  ret\<newline>'' cg3))"
| "visit_StmtNode (Some (BlockStmtNode stmts)) cg = visit_statements stmts cg"
| "visit_statements [] cg = Some cg"
| "visit_statements (stmt # rest) cg =
     (case visit_StmtNode stmt cg of None \<Rightarrow> None | Some cg' \<Rightarrow> visit_statements rest cg')"

text \<open>
  \<open>generate\<close>: the two preamble lines, the loop over the top-level statements, and
  \<open>m_output.str()\<close>. The stream is a member and is appended to; nothing clears it.
\<close>

definition generate :: "CodeGenerator \<Rightarrow> (string \<times> CodeGenerator) option" where
  "generate cg =
     (let cg1 = emit ''global main\<newline>'' cg;
          cg2 = emit ''section .text\<newline>'' cg1
      in case visit_statements (statements (m_ast cg2)) cg2 of
           None \<Rightarrow> None
         | Some cg3 \<Rightarrow> Some (m_output cg3, cg3))"

section \<open>The driver (main.cpp)\<close>

text \<open>
  The three stages as \<open>main\<close> chains them, without the file input and output: the
  tokens of the source go to a fresh parser, the tree to a fresh generator, and the
  result is the assembly text that \<open>main\<close> writes to the output file. \<open>None\<close> is a run
  without assembly text: on the empty source \<open>main\<close> returns 1 before the lexer runs,
  and the other cases are the runs that end in undefined behaviour.
\<close>

definition main_pipeline :: "string \<Rightarrow> string option" where
  "main_pipeline source_code =
     (if source_code = [] then None
      else case parse (tokenize source_code) of
             Done ast st \<Rightarrow> map_option fst (generate (new_CodeGenerator ast))
           | Raised msg st \<Rightarrow> None
           | OutOfRange \<Rightarrow> None)"

section \<open>End-to-end example\<close>

text \<open>The three stages on the source text \<open>int main() { return 0; }\<close>, one at a time.\<close>

definition return_zero_tokens :: "Token list" where
  "return_zero_tokens =
     [\<lparr>t_type = INT_KW, t_value = ''int'', t_line = 1\<rparr>,
      \<lparr>t_type = IDENTIFIER, t_value = ''main'', t_line = 1\<rparr>,
      \<lparr>t_type = OPEN_PAREN, t_value = ''('', t_line = 1\<rparr>,
      \<lparr>t_type = CLOSE_PAREN, t_value = '')'', t_line = 1\<rparr>,
      \<lparr>t_type = OPEN_BRACE, t_value = ''{'', t_line = 1\<rparr>,
      \<lparr>t_type = RETURN, t_value = ''return'', t_line = 1\<rparr>,
      \<lparr>t_type = NUMBER_LITERAL, t_value = ''0'', t_line = 1\<rparr>,
      \<lparr>t_type = SEMICOLON, t_value = '';'', t_line = 1\<rparr>,
      \<lparr>t_type = CLOSE_BRACE, t_value = ''}'', t_line = 1\<rparr>,
      \<lparr>t_type = END_OF_FILE, t_value = [], t_line = 1\<rparr>]"

definition return_zero_ast :: ProgramNode where
  "return_zero_ast =
     \<lparr>statements = [Some (FunctionDefNode ''int'' ''main''
        (Some [Some (ReturnStmtNode (Some (NumberLiteralNode ''0'')))]))]\<rparr>"

definition return_zero_asm :: string where
  "return_zero_asm = concat
     [''global main\<newline>'',
      ''section .text\<newline>'',
      ''main:\<newline>'',
      ''  push rbp\<newline>'',
      ''  mov rbp, rsp\<newline>'',
      ''  mov rax, 0\<newline>'',
      ''  mov rsp, rbp\<newline>'',
      ''  pop rbp\<newline>'',
      ''  ret\<newline>'']"

lemma tokenize_return_zero: "tokenize ''int main() { return 0; }'' = return_zero_tokens"
  by code_simp

lemma parse_return_zero:
  "parse return_zero_tokens
     = Done return_zero_ast \<lparr>m_tokens = return_zero_tokens, m_pos = 9, parse_cerr = []\<rparr>"
  by code_simp

lemma generate_return_zero:
  "map_option fst (generate (new_CodeGenerator return_zero_ast)) = Some return_zero_asm"
  by code_simp

text \<open>
  Claim C1. For the source text \<open>int main() { return 0; }\<close>, the parser returns the tree
  of one function \<open>main\<close> whose body is one return of the literal \<open>0\<close>, and \<open>generate\<close> on
  that tree returns exactly the nine lines of \<open>return_zero_asm\<close>, in this order: the two
  preamble lines, the label \<open>main:\<close>, the two prologue lines, \<open>mov rax, 0\<close>, the two
  epilogue lines and \<open>ret\<close>. The move of the expression comes before the epilogue.
\<close>

theorem C1_return_zero:
  "parse (tokenize ''int main() { return 0; }'')
     = Done return_zero_ast \<lparr>m_tokens = return_zero_tokens, m_pos = 9, parse_cerr = []\<rparr>
   \<and> map_option fst (generate (new_CodeGenerator return_zero_ast)) = Some return_zero_asm
   \<and> main_pipeline ''int main() { return 0; }'' = Some return_zero_asm"
  by (simp add: main_pipeline_def tokenize_return_zero parse_return_zero generate_return_zero)

section \<open>The include directive\<close>

text \<open>
  Claim C5 (evaluation of the code at the input the claim names). On the
  eight-character source \<open>#include\<close> the lexer reads \<open>#\<close>, sees \<open>i\<close>, and adds 6 to the
  cursor, which then stands on the final \<open>e\<close>: the result is the \<open>#include\<close> token, an
  identifier token \<open>e\<close>, and the end-of-stream token. The comment in the source says
  \<open>Skip "include"\<close>, a word of seven characters.
\<close>

theorem C5_include_leaves_identifier:
  "tokenize ''#include''
     = [\<lparr>t_type = INCLUDE, t_value = ''#include'', t_line = 1\<rparr>,
        \<lparr>t_type = IDENTIFIER, t_value = ''e'', t_line = 1\<rparr>,
        \<lparr>t_type = END_OF_FILE, t_value = [], t_line = 1\<rparr>]"
  by code_simp

section \<open>Identifiers and keywords\<close>

text \<open>
  The maximal run of letters, digits and underscores of \<open>s\<close> from position \<open>p\<close> on: the
  reading of "maximal identifier run" that the theorem below compares the lexer with.
\<close>

definition maximal_run :: "string \<Rightarrow> nat \<Rightarrow> string" where
  "maximal_run s p = takeWhile (\<lambda>c. isalnum c \<or> c = CHR ''_'') (drop p s)"

lemma maximal_run_at_end: "length s \<le> p \<Longrightarrow> maximal_run s p = []"
  by (simp add: maximal_run_def)

lemma maximal_run_step:
  assumes "p < length s"
  shows "maximal_run s p =
     (if isalnum (s ! p) \<or> s ! p = CHR ''_'' then s ! p # maximal_run s (Suc p) else [])"
proof -
  have "drop p s = s ! p # drop (Suc p) s"
    using assms by (simp add: Cons_nth_drop_Suc)
  then show ?thesis by (simp add: maximal_run_def)
qed

lemma identifier_loop_eq:
  "identifier_loop lx
     = lx\<lparr>m_current_pos := m_current_pos lx + length (maximal_run (m_source lx) (m_current_pos lx))\<rparr>"
proof (induction lx rule: identifier_loop.induct)
  case (1 lx)
  show ?case
  proof (cases "isalnum (peek lx) \<or> peek lx = CHR ''_''")
    case True
    then have ne: "m_current_pos lx < length (m_source lx)"
      using isalnum_not_at_end [of lx] by (simp add: is_at_end_def)
    then have pk: "peek lx = m_source lx ! m_current_pos lx"
      by (simp add: peek_def is_at_end_def char_at_def)
    have "identifier_loop lx = identifier_loop (snd (advance lx))"
      using True by (subst identifier_loop.simps) simp
    also have "\<dots> = (snd (advance lx))\<lparr>m_current_pos := m_current_pos (snd (advance lx))
        + length (maximal_run (m_source (snd (advance lx))) (m_current_pos (snd (advance lx))))\<rparr>"
      using True by (rule "1.IH")
    also have "\<dots> = lx\<lparr>m_current_pos := m_current_pos lx
        + length (maximal_run (m_source lx) (m_current_pos lx))\<rparr>"
      using True pk by (simp add: advance_def maximal_run_step [OF ne])
    finally show ?thesis .
  next
    case False
    have "maximal_run (m_source lx) (m_current_pos lx) = []"
    proof (cases "m_current_pos lx < length (m_source lx)")
      case True
      then have "peek lx = m_source lx ! m_current_pos lx"
        by (simp add: peek_def is_at_end_def char_at_def)
      with False True show ?thesis by (simp add: maximal_run_step)
    next
      case False
      then show ?thesis by (simp add: maximal_run_at_end)
    qed
    with False show ?thesis
      by (subst identifier_loop.simps) simp
  qed
qed

lemma substr_maximal_run:
  "substr s p (p + length (maximal_run s p) - p) = maximal_run s p"
  unfolding substr_def maximal_run_def
  by (simp add: takeWhile_eq_take [symmetric])

lemma handle_identifier_eq:
  "handle_identifier lx =
     (let run = maximal_run (m_source lx) (m_current_pos lx);
          lx' = lx\<lparr>m_current_pos := m_current_pos lx + length run\<rparr>
      in (\<lparr>t_type = (case keywords_map run of Some ty \<Rightarrow> ty | None \<Rightarrow> IDENTIFIER),
           t_value = run, t_line = m_line lx\<rparr>, lx'))"
  using substr_maximal_run [of "m_source lx" "m_current_pos lx"]
  by (simp add: handle_identifier_def identifier_loop_eq Let_def make_token_def
      split: option.split)

lemma isalpha_not_blank:
  assumes "isalpha c \<or> c = CHR ''_''"
  shows "c \<noteq> CHR '' ''" "c \<noteq> CHR 0x0D" "c \<noteq> CHR 0x09" "c \<noteq> CHR 0x0A" "c \<noteq> CHR ''/''"
  using assms by (auto simp: isalpha_def)

lemma isalpha_not_punct:
  assumes "isalpha c \<or> c = CHR ''_''"
  shows "c \<noteq> CHR '';''" "c \<noteq> CHR ''(''" "c \<noteq> CHR '')''" "c \<noteq> CHR ''{''" "c \<noteq> CHR ''}''"
    "c \<noteq> CHR ''<''" "c \<noteq> CHR ''>''" "c \<noteq> CHR ''=''" "c \<noteq> CHR ''+''" "c \<noteq> CHR ''-''"
    "c \<noteq> CHR ''*''" "c \<noteq> CHR ''#''" "c \<noteq> CHR 0x22" "\<not> isdigit c"
  using assms by (auto simp: isalpha_def isdigit_def)

lemma skip_whitespace_and_comments_at_letter:
  assumes "isalpha (peek lx) \<or> peek lx = CHR ''_''"
  shows "skip_whitespace_and_comments lx = lx"
  using isalpha_not_blank [OF assms]
  by (subst skip_whitespace_and_comments.simps) (simp add: Let_def)

lemma tokenize_switch_at_letter:
  assumes "\<not> is_at_end lx" and "isalpha (peek lx) \<or> peek lx = CHR ''_''"
  shows "tokenize_switch (fst (advance lx)) (snd (advance lx)) tokens
     = (tokens @ [fst (handle_identifier lx)], snd (handle_identifier lx))"
proof -
  have c: "fst (advance lx) = peek lx"
    using assms(1) by (simp add: advance_def peek_def)
  have b: "(snd (advance lx))\<lparr>m_current_pos := m_current_pos (snd (advance lx)) - 1\<rparr> = lx"
    by (simp add: advance_def)
  show ?thesis
    unfolding c tokenize_switch_def b
    using isalpha_not_punct [OF assms(2)] assms(2)
    by (simp add: case_prod_beta)
qed

text \<open>
  Claim C7. Whenever the main loop of the lexer stands on a letter or an underscore,
  that round of the loop emits exactly one token: its text is the whole maximal run of
  letters, digits and underscores from the cursor, the cursor moves to the end of the
  run, and only then is the kind decided, by looking the whole text up in the keyword
  table (an exact comparison of strings, so \<open>Int\<close> or \<open>intx\<close> are identifiers). On the
  source \<open>intx\<close> the result is the single identifier \<open>intx\<close> and the end-of-stream
  token.
\<close>

theorem C7_identifier_maximal_run:
  assumes "\<not> is_at_end lx" and "isalpha (peek lx) \<or> peek lx = CHR ''_''"
  shows "tokenize_loop lx tokens
     = tokenize_loop
         (lx\<lparr>m_current_pos := m_current_pos lx
                + length (maximal_run (m_source lx) (m_current_pos lx))\<rparr>)
         (tokens @
           [\<lparr>t_type = (case keywords_map (maximal_run (m_source lx) (m_current_pos lx)) of
                         Some ty \<Rightarrow> ty | None \<Rightarrow> IDENTIFIER),
             t_value = maximal_run (m_source lx) (m_current_pos lx),
             t_line = m_line lx\<rparr>])
   \<and> tokenize ''intx''
     = [\<lparr>t_type = IDENTIFIER, t_value = ''intx'', t_line = 1\<rparr>,
        \<lparr>t_type = END_OF_FILE, t_value = [], t_line = 1\<rparr>]
   \<and> keywords_map ''intx'' = None \<and> keywords_map ''Int'' = None
   \<and> keywords_map ''int'' = Some INT_KW"
proof (intro conjI)
  have s: "skip_whitespace_and_comments lx = lx"
    using assms(2) by (rule skip_whitespace_and_comments_at_letter)
  have "tokenize_loop lx tokens
      = tokenize_loop (snd (handle_identifier lx)) (tokens @ [fst (handle_identifier lx)])"
    using assms(1) tokenize_switch_at_letter [OF assms, of tokens]
    by (subst tokenize_loop.simps) (simp add: s Let_def case_prod_beta)
  then show "tokenize_loop lx tokens
     = tokenize_loop
         (lx\<lparr>m_current_pos := m_current_pos lx
                + length (maximal_run (m_source lx) (m_current_pos lx))\<rparr>)
         (tokens @
           [\<lparr>t_type = (case keywords_map (maximal_run (m_source lx) (m_current_pos lx)) of
                         Some ty \<Rightarrow> ty | None \<Rightarrow> IDENTIFIER),
             t_value = maximal_run (m_source lx) (m_current_pos lx),
             t_line = m_line lx\<rparr>])"
    by (simp add: handle_identifier_eq Let_def)
  show "tokenize ''intx''
     = [\<lparr>t_type = IDENTIFIER, t_value = ''intx'', t_line = 1\<rparr>,
        \<lparr>t_type = END_OF_FILE, t_value = [], t_line = 1\<rparr>]"
    by code_simp
  show "keywords_map ''intx'' = None" "keywords_map ''Int'' = None"
    "keywords_map ''int'' = Some INT_KW"
    by (simp_all add: keywords_map_def)
qed

theorem C7_identifier_maximal_run_witness:
  "\<not> is_at_end (new_Lexer ''intx'')
   \<and> isalpha (peek (new_Lexer ''intx''))
   \<and> maximal_run ''intx'' 0 = ''intx''
   \<and> tokenize_loop (new_Lexer ''intx'') []
      = tokenize_loop ((new_Lexer ''intx'')\<lparr>m_current_pos := length ''intx''\<rparr>)
          [\<lparr>t_type = IDENTIFIER, t_value = ''intx'', t_line = 1\<rparr>]"
proof -
  have e: "\<not> is_at_end (new_Lexer ''intx'')"
    by (simp add: new_Lexer_def is_at_end_def)
  have a: "isalpha (peek (new_Lexer ''intx''))"
    by (simp add: new_Lexer_def is_at_end_def peek_def char_at_def isalpha_def)
  have r: "maximal_run ''intx'' 0 = ''intx''"
    by (simp add: maximal_run_def isalnum_def isalpha_def isdigit_def)
  have k: "keywords_map ''intx'' = None"
    by (simp add: keywords_map_def)
  from a have a': "isalpha (peek (new_Lexer ''intx'')) \<or> peek (new_Lexer ''intx'') = CHR ''_''"
    by simp
  show ?thesis
    using C7_identifier_maximal_run [OF e a', of "[]"] e a r k
    by (simp add: new_Lexer_def)
qed

section \<open>Running generate twice\<close>

text \<open>
  \<open>ProgramNode\<close> owns its nodes through \<open>std::unique_ptr\<close> and cannot be copied, and the
  constructor of \<open>CodeGenerator\<close> takes it by value: the only way to run \<open>generate\<close>
  twice on one tree is to call it twice on the generator that owns the tree.
  \<open>generate_twice\<close> is that experiment, \<open>CodeGenerator g(std::move(ast)); first =
  g.generate(); second = g.generate();\<close>, and returns both texts.
\<close>

definition generate_twice :: "ProgramNode \<Rightarrow> (string \<times> string) option" where
  "generate_twice ast =
     (case generate (new_CodeGenerator ast) of
        None \<Rightarrow> None
      | Some (first, cg1) \<Rightarrow>
          (case generate cg1 of
             None \<Rightarrow> None
           | Some (second, cg2) \<Rightarrow> Some (first, second)))"

text \<open>
  A generator whose stream already holds \<open>p\<close> (and whose error stream holds \<open>q\<close>) does
  what it would do on empty streams, after \<open>p\<close> and \<open>q\<close>.
\<close>

definition shift :: "string \<Rightarrow> string list \<Rightarrow> CodeGenerator \<Rightarrow> CodeGenerator" where
  "shift p q cg = cg\<lparr>m_output := p @ m_output cg, gen_cerr := q @ gen_cerr cg\<rparr>"

lemma emit_shift: "emit text (shift p q cg) = shift p q (emit text cg)"
  by (simp add: emit_def shift_def)

lemma visit_ExprNode_shift: "visit_ExprNode e (shift p q cg) = shift p q (visit_ExprNode e cg)"
proof (cases e)
  case None
  then show ?thesis by (simp add: shift_def)
next
  case (Some n)
  then show ?thesis by (cases n) (simp add: emit_shift)
qed

lemma visit_shift:
  "visit_StmtNode s (shift p q cg) = map_option (shift p q) (visit_StmtNode s cg)"
  "visit_statements ss (shift p q cg) = map_option (shift p q) (visit_statements ss cg)"
proof (induction s cg and ss cg rule: visit_StmtNode_visit_statements.induct)
  case (1 cg)
  show ?case by simp
next
  case (2 return_type name body cg)
  then show ?case
    by (cases body) (simp_all add: emit_shift Let_def)
next
  case (3 expression cg)
  show ?case by (simp add: emit_shift visit_ExprNode_shift Let_def)
next
  case (4 stmts cg)
  then show ?case by simp
next
  case (5 cg)
  show ?case by simp
next
  case (6 stmt rest cg)
  then show ?case
    by (cases "visit_StmtNode stmt cg") simp_all
qed

lemma emit_m_ast: "m_ast (emit text cg) = m_ast cg"
  by (simp add: emit_def)

lemma visit_ExprNode_m_ast: "m_ast (visit_ExprNode e cg) = m_ast cg"
proof (cases e)
  case None
  then show ?thesis by simp
next
  case (Some n)
  then show ?thesis by (cases n) (simp add: emit_m_ast)
qed

lemma visit_m_ast:
  "visit_StmtNode s cg = Some cg' \<Longrightarrow> m_ast cg' = m_ast cg"
  "visit_statements ss cg = Some cg' \<Longrightarrow> m_ast cg' = m_ast cg"
proof (induction s cg and ss cg arbitrary: cg' and cg' rule: visit_StmtNode_visit_statements.induct)
  case (1 cg)
  then show ?case by simp
next
  case (2 return_type name body cg)
  show ?case
  proof (cases body)
    case None
    with 2 show ?thesis by simp
  next
    case (Some stmts)
    with 2(2) have "visit_statements stmts
        (emit ''  mov rbp, rsp\<newline>'' (emit ''  push rbp\<newline>'' (emit (name @ '':\<newline>'') cg)))
        = Some cg'"
      by (simp add: Let_def)
    from 2(1) [OF refl refl refl Some this] show ?thesis
      by (simp add: emit_m_ast)
  qed
next
  case (3 expression cg)
  then show ?case
    by (auto simp: Let_def emit_m_ast visit_ExprNode_m_ast)
next
  case (4 stmts cg)
  then show ?case by simp
next
  case (5 cg)
  then show ?case by simp
next
  case (6 stmt rest cg)
  show ?case
  proof (cases "visit_StmtNode stmt cg")
    case None
    with 6(3) show ?thesis by simp
  next
    case (Some cg1)
    with 6(3) have r: "visit_statements rest cg1 = Some cg'" by simp
    from 6(1) [OF Some] 6(2) [OF Some r] show ?thesis by simp
  qed
qed

lemma generate_shift:
  "generate (shift p q cg)
     = map_option (\<lambda>(out, cg'). (p @ out, shift p q cg')) (generate cg)"
proof -
  let ?cg2 = "emit ''section .text\<newline>'' (emit ''global main\<newline>'' cg)"
  have e: "emit ''section .text\<newline>'' (emit ''global main\<newline>'' (shift p q cg)) = shift p q ?cg2"
    by (simp only: emit_shift)
  have a: "m_ast (shift p q ?cg2) = m_ast ?cg2"
    by (simp add: shift_def)
  have c: "m_output (shift p q cg') = p @ m_output cg'" for cg'
    by (simp add: shift_def)
  show ?thesis
    unfolding generate_def Let_def e a visit_shift
    by (cases "visit_statements (statements (m_ast ?cg2)) ?cg2") (simp_all add: c)
qed

lemma generate_result:
  assumes "generate (new_CodeGenerator ast) = Some (out, cg1)"
  shows "cg1 = shift out (gen_cerr cg1) (new_CodeGenerator ast)"
    and "\<exists>rest. out = ''global main\<newline>'' @ rest"
proof -
  let ?cg0 = "emit ''section .text\<newline>'' (emit ''global main\<newline>'' (new_CodeGenerator ast))"
  have m: "m_ast ?cg0 = ast"
    by (simp add: emit_m_ast new_CodeGenerator_def)
  from assms have "(case visit_statements (statements ast) ?cg0 of
        None \<Rightarrow> None | Some cg3 \<Rightarrow> Some (m_output cg3, cg3)) = Some (out, cg1)"
    unfolding generate_def Let_def m .
  then have v: "visit_statements (statements ast) ?cg0 = Some cg1" and o: "out = m_output cg1"
    by (simp_all split: option.splits)
  have "m_ast cg1 = ast"
    using visit_m_ast(2) [OF v] m by simp
  then show "cg1 = shift out (gen_cerr cg1) (new_CodeGenerator ast)"
    using o by (simp add: shift_def new_CodeGenerator_def)
  have "?cg0 = shift ''global main\<newline>'' []
      (emit ''section .text\<newline>'' (new_CodeGenerator ast))"
    by (simp add: shift_def emit_def new_CodeGenerator_def)
  with v obtain cg' where "cg1 = shift ''global main\<newline>'' [] cg'"
    by (auto simp: visit_shift)
  with o show "\<exists>rest. out = ''global main\<newline>'' @ rest"
    by (simp add: shift_def)
qed

text \<open>
  Claim C2, as stated, fails: on the tree of \<open>int main() { return 0; }\<close> the first call
  returns the nine lines of \<open>return_zero_asm\<close> and the second call returns them twice.
\<close>

theorem C2_generate_twice_counterexample:
  "generate_twice return_zero_ast = Some (return_zero_asm, return_zero_asm @ return_zero_asm)
   \<and> return_zero_asm @ return_zero_asm \<noteq> return_zero_asm"
proof
  show "generate_twice return_zero_ast
      = Some (return_zero_asm, return_zero_asm @ return_zero_asm)"
    by code_simp
  show "return_zero_asm @ return_zero_asm \<noteq> return_zero_asm"
    by (simp add: return_zero_asm_def)
qed

text \<open>
  Claim C2, amended. For every tree, the second call of \<open>generate\<close> on the generator
  that owns it returns the text of the first call followed by that same text again
  (the stream \<open>m_output\<close> is never cleared), and so never a text equal to the first;
  both calls end in the null dereference when the first does.
\<close>

theorem C2_second_generate_repeats:
  "generate_twice ast
     = map_option (\<lambda>out. (out, out @ out)) (map_option fst (generate (new_CodeGenerator ast)))
   \<and> generate_twice ast \<noteq> Some (text, text)"
proof (cases "generate (new_CodeGenerator ast)")
  case None
  then show ?thesis by (simp add: generate_twice_def)
next
  case (Some r)
  obtain out cg1 where r: "r = (out, cg1)" by (cases r)
  with Some have g: "generate (new_CodeGenerator ast) = Some (out, cg1)" by simp
  have s: "cg1 = shift out (gen_cerr cg1) (new_CodeGenerator ast)"
    using g by (rule generate_result(1))
  have "generate cg1 = map_option (\<lambda>(out', cg'). (out @ out', shift out (gen_cerr cg1) cg'))
      (generate (new_CodeGenerator ast))"
    by (subst s) (rule generate_shift)
  then have g2: "generate cg1 = Some (out @ out, shift out (gen_cerr cg1) cg1)"
    by (simp add: g)
  have t: "generate_twice ast = Some (out, out @ out)"
    by (simp add: generate_twice_def g g2)
  obtain rest where "out = ''global main\<newline>'' @ rest"
    using generate_result(2) [OF g] by blast
  then have "out \<noteq> []" by simp
  then have "out @ out \<noteq> out" by simp
  with t show ?thesis by (auto simp: g)
qed

section \<open>The parser on token vectors that end with END_OF_FILE\<close>

text \<open>
  \<open>wf_parser\<close>: the cursor is inside the vector and the last token of the vector is
  \<open>END_OF_FILE\<close>. \<open>cur\<close> is the token under the cursor and \<open>next_pos\<close> the state with the
  cursor one place further; both are used to state what the member functions do.
\<close>

definition wf_parser :: "Parser \<Rightarrow> bool" where
  "wf_parser st \<longleftrightarrow>
     m_pos st < length (m_tokens st) \<and> t_type (last (m_tokens st)) = END_OF_FILE"

definition cur :: "Parser \<Rightarrow> Token" where
  "cur st = m_tokens st ! m_pos st"

definition next_pos :: "Parser \<Rightarrow> Parser" where
  "next_pos st = st\<lparr>m_pos := m_pos st + 1\<rparr>"

lemma next_pos_fields [simp]:
  "m_tokens (next_pos st) = m_tokens st"
  "m_pos (next_pos st) = m_pos st + 1"
  "parse_cerr (next_pos st) = parse_cerr st"
  by (simp_all add: next_pos_def)

lemma wf_parser_cerr_line [simp]: "wf_parser (cerr_line text st) = wf_parser st"
  by (simp add: wf_parser_def)

lemma wf_parser_next:
  assumes "wf_parser st" and "t_type (cur st) \<noteq> END_OF_FILE"
  shows "wf_parser (next_pos st)"
proof -
  from assms(1) have "m_tokens st \<noteq> []" by (auto simp: wf_parser_def)
  then have "last (m_tokens st) = m_tokens st ! (length (m_tokens st) - 1)"
    by (rule last_conv_nth)
  with assms have "m_pos st \<noteq> length (m_tokens st) - 1"
    by (auto simp: wf_parser_def cur_def)
  with assms(1) show ?thesis
    by (auto simp: wf_parser_def)
qed

lemma Parser_peek_wf: "wf_parser st \<Longrightarrow> Parser_peek st = Done (cur st) st"
  by (simp add: Parser_peek_def wf_parser_def cur_def)

lemma Parser_is_at_end_wf:
  "wf_parser st \<Longrightarrow> Parser_is_at_end st = Done (t_type (cur st) = END_OF_FILE) st"
  by (simp add: Parser_is_at_end_def Parser_peek_wf)

lemma check_wf:
  "wf_parser st \<Longrightarrow>
     check ty st = Done (t_type (cur st) \<noteq> END_OF_FILE \<and> t_type (cur st) = ty) st"
  by (simp add: check_def Parser_is_at_end_wf Parser_peek_wf)

lemma Parser_advance_wf:
  "wf_parser st \<Longrightarrow> t_type (cur st) \<noteq> END_OF_FILE \<Longrightarrow>
     Parser_advance st = Done (cur st) (next_pos st)"
  by (simp add: Parser_advance_def Parser_is_at_end_wf Let_def wf_parser_def cur_def next_pos_def)

lemma expect_wf:
  "wf_parser st \<Longrightarrow>
     expect ty msg st =
       (if t_type (cur st) \<noteq> END_OF_FILE \<and> t_type (cur st) = ty
        then Done (cur st) (next_pos st) else Raised msg st)"
  by (simp add: expect_def check_wf Parser_advance_wf)

text \<open>
  \<open>safe st r\<close>: the outcome \<open>r\<close> of a member function started in \<open>st\<close> is not an
  out-of-range read, and the state it leaves, by return or by throw, is again
  well-formed, on the same vector.
\<close>

definition safe :: "Parser \<Rightarrow> 'a outcome \<Rightarrow> bool" where
  "safe st r =
     (case r of
        Done x st' \<Rightarrow> wf_parser st' \<and> m_tokens st' = m_tokens st
      | Raised msg st' \<Rightarrow> wf_parser st' \<and> m_tokens st' = m_tokens st
      | OutOfRange \<Rightarrow> False)"

lemma safe_simps [simp]:
  "safe st (Done x st') \<longleftrightarrow> wf_parser st' \<and> m_tokens st' = m_tokens st"
  "safe st (Raised msg st') \<longleftrightarrow> wf_parser st' \<and> m_tokens st' = m_tokens st"
  "\<not> safe st OutOfRange"
  by (simp_all add: safe_def)

lemma safe_then_do:
  assumes "safe st m"
    and "\<And>x st'. m = Done x st' \<Longrightarrow> wf_parser st' \<Longrightarrow> m_tokens st' = m_tokens st
           \<Longrightarrow> safe st' (f x st')"
  shows "safe st (then_do m f)"
proof (cases m)
  case (Done x st')
  with assms(1) have w: "wf_parser st'" and t: "m_tokens st' = m_tokens st" by simp_all
  from assms(2) [OF Done w t] have "safe st' (f x st')" .
  with t Done show ?thesis by (cases "f x st'") simp_all
next
  case (Raised msg st')
  with assms(1) show ?thesis by simp
next
  case OutOfRange
  with assms(1) show ?thesis by simp
qed

lemma Parser_advance_safe:
  "wf_parser st \<Longrightarrow> t_type (cur st) \<noteq> END_OF_FILE \<Longrightarrow> safe st (Parser_advance st)"
  by (simp add: Parser_advance_wf wf_parser_next)

lemma expect_safe: "wf_parser st \<Longrightarrow> safe st (expect ty msg st)"
  by (auto simp: expect_wf wf_parser_next)

lemma parse_expression_safe: "wf_parser st \<Longrightarrow> safe st (parse_expression st)"
  by (auto simp: parse_expression_def check_wf Parser_advance_wf wf_parser_next)

lemma parse_return_statement_safe:
  assumes "wf_parser st" and "t_type (cur st) \<noteq> END_OF_FILE"
  shows "safe st (parse_return_statement st)"
  unfolding parse_return_statement_def
  by (intro safe_then_do Parser_advance_safe parse_expression_safe expect_safe assms) simp_all

lemma parse_statement_safe:
  assumes "wf_parser st" and "t_type (cur st) \<noteq> END_OF_FILE"
  shows "safe st (parse_statement st)"
  using assms
  by (auto simp: parse_statement_def check_wf parse_return_statement_safe
      Parser_advance_wf wf_parser_next)

lemma block_loop_wf:
  assumes "wf_parser st"
  shows "block_loop stmts st =
     (if t_type (cur st) = CLOSE_BRACE \<or> t_type (cur st) = END_OF_FILE then Done stmts st
      else then_do (parse_statement st) (\<lambda>stmt st'.
             block_loop (case stmt of Some _ \<Rightarrow> stmts @ [stmt] | None \<Rightarrow> stmts) st'))"
  using assms
  by (subst block_loop.simps) (auto simp: check_wf Parser_is_at_end_wf)

lemma parse_loop_wf:
  assumes "wf_parser st"
  shows "parse_loop program st =
     (if t_type (cur st) = END_OF_FILE then Done program st
      else (case parse_declaration st of
              Done d st' \<Rightarrow> parse_loop (program\<lparr>statements := statements program @ [d]\<rparr>) st'
            | Raised msg st' \<Rightarrow> Done program (cerr_line (''Parse Error: '' @ msg) st')
            | OutOfRange \<Rightarrow> OutOfRange))"
  using assms
  by (subst parse_loop.simps) (simp add: Parser_is_at_end_wf)

lemma measure_decreases:
  assumes "wf_parser st" and "m_tokens st' = m_tokens st" and "m_pos st < m_pos st'"
  shows "length (m_tokens st') - m_pos st' < length (m_tokens st) - m_pos st"
  using assms by (auto simp: wf_parser_def)

lemma block_loop_safe: "wf_parser st \<Longrightarrow> safe st (block_loop stmts st)"
proof (induction "length (m_tokens st) - m_pos st" arbitrary: st stmts rule: less_induct)
  case less
  show ?case
  proof (cases "t_type (cur st) = CLOSE_BRACE \<or> t_type (cur st) = END_OF_FILE")
    case True
    with less.prems show ?thesis by (simp add: block_loop_wf)
  next
    case False
    have "safe st (then_do (parse_statement st) (\<lambda>stmt st'.
        block_loop (case stmt of Some _ \<Rightarrow> stmts @ [stmt] | None \<Rightarrow> stmts) st'))"
    proof (rule safe_then_do)
      show "safe st (parse_statement st)"
        using less.prems False by (simp add: parse_statement_safe)
    next
      fix x st'
      assume d: "parse_statement st = Done x st'" and w: "wf_parser st'"
        and t: "m_tokens st' = m_tokens st"
      from False have "t_type (m_tokens st ! m_pos st) \<noteq> END_OF_FILE"
        by (simp add: cur_def)
      with d have "m_pos st < m_pos st'"
        by (simp add: parse_statement_Done)
      with less.prems t have "length (m_tokens st') - m_pos st' < length (m_tokens st) - m_pos st"
        by (intro measure_decreases)
      from less.hyps [OF this w]
      show "safe st' (block_loop (case x of Some _ \<Rightarrow> stmts @ [x] | None \<Rightarrow> stmts) st')" .
    qed
    with less.prems False show ?thesis by (simp add: block_loop_wf)
  qed
qed

lemma parse_block_statement_safe: "wf_parser st \<Longrightarrow> safe st (parse_block_statement st)"
  unfolding parse_block_statement_def
  by (intro safe_then_do expect_safe block_loop_safe) simp_all

lemma parse_function_definition_safe:
  assumes "wf_parser st" and "t_type (cur st) \<noteq> END_OF_FILE"
  shows "safe st (parse_function_definition st)"
  unfolding parse_function_definition_def
  by (intro safe_then_do Parser_advance_safe expect_safe parse_block_statement_safe assms)
     simp_all

text \<open>
  The lookahead of \<open>parse_declaration\<close>: when \<open>check(INT)\<close> is true the token under the
  cursor is not \<open>END_OF_FILE\<close>, so it is not the last one, and the index after it is in
  range.
\<close>

lemma parse_declaration_wf:
  assumes "wf_parser st" and "t_type (cur st) \<noteq> END_OF_FILE"
  shows "parse_declaration st =
     (if t_type (cur st) = INT_KW \<and> t_type (m_tokens st ! (m_pos st + 1)) = IDENTIFIER
      then parse_function_definition st
      else Done None
        (cerr_line (''Parser Warning: Skipping unknown top-level token: '' @ to_string (cur st))
           (next_pos st)))"
proof -
  have "m_pos st + 1 < length (m_tokens st)"
    using wf_parser_next [OF assms] by (simp add: wf_parser_def)
  with assms show ?thesis
    by (simp add: parse_declaration_def check_wf Parser_advance_wf)
qed

lemma parse_declaration_safe:
  assumes "wf_parser st" and "t_type (cur st) \<noteq> END_OF_FILE"
  shows "safe st (parse_declaration st)"
  using assms
  by (simp add: parse_declaration_wf parse_function_definition_safe wf_parser_next)

lemma parse_loop_safe: "wf_parser st \<Longrightarrow> safe st (parse_loop program st)"
proof (induction "length (m_tokens st) - m_pos st" arbitrary: st program rule: less_induct)
  case less
  show ?case
  proof (cases "t_type (cur st) = END_OF_FILE")
    case True
    with less.prems show ?thesis by (simp add: parse_loop_wf)
  next
    case False
    with less.prems have s: "safe st (parse_declaration st)"
      by (rule parse_declaration_safe)
    show ?thesis
    proof (cases "parse_declaration st")
      case (Done d st')
      with s have w: "wf_parser st'" and t: "m_tokens st' = m_tokens st" by simp_all
      from False have "t_type (m_tokens st ! m_pos st) \<noteq> END_OF_FILE"
        by (simp add: cur_def)
      with Done have "m_pos st < m_pos st'"
        by (simp add: parse_declaration_Done)
      with less.prems t have "length (m_tokens st') - m_pos st' < length (m_tokens st) - m_pos st"
        by (intro measure_decreases)
      from less.hyps [OF this w]
      have "safe st' (parse_loop (program\<lparr>statements := statements program @ [d]\<rparr>) st')" .
      with t have "safe st (parse_loop (program\<lparr>statements := statements program @ [d]\<rparr>) st')"
        by (simp add: safe_def split: outcome.splits)
      with less.prems False Done show ?thesis by (simp add: parse_loop_wf)
    next
      case (Raised msg st')
      with s less.prems False show ?thesis by (simp add: parse_loop_wf)
    next
      case OutOfRange
      with s show ?thesis by simp
    qed
  qed
qed

lemma parse_loop_no_raise: "parse_loop program st \<noteq> Raised msg st'"
proof (induction program st rule: parse_loop.induct)
  case (1 program st)
  show ?case
  proof (cases "Parser_is_at_end st")
    case e: (Done e st1)
    show ?thesis
    proof (cases e)
      case True
      with e show ?thesis by (subst parse_loop.simps) simp
    next
      case False
      show ?thesis
      proof (cases "parse_declaration st1")
        case d: (Done d st2)
        from 1 [OF e False d] e False d show ?thesis
          by (subst parse_loop.simps) simp
      next
        case (Raised msg' st2)
        with e False show ?thesis by (subst parse_loop.simps) simp
      next
        case OutOfRange
        with e False show ?thesis by (subst parse_loop.simps) simp
      qed
    qed
  next
    case (Raised msg' st1)
    then show ?thesis
      by (simp add: Parser_is_at_end_def Parser_peek_def split: if_splits)
  next
    case OutOfRange
    then show ?thesis by (subst parse_loop.simps) simp
  qed
qed

lemma parse_initial_wf:
  assumes "tokens \<noteq> []" and "t_type (last tokens) = END_OF_FILE"
  shows "wf_parser (new_Parser tokens)"
  using assms by (simp add: wf_parser_def new_Parser_def)

lemma tokenize_ends_with_eof:
  "tokenize source \<noteq> [] \<and> t_type (last (tokenize source)) = END_OF_FILE"
  by (simp add: tokenize_def Lexer_tokenize_def case_prod_beta make_token_def)

lemma parse_returns:
  assumes "tokens \<noteq> []" and "t_type (last tokens) = END_OF_FILE"
  shows "\<exists>program st. parse tokens = Done program st
          \<and> m_tokens st = tokens \<and> m_pos st < length tokens"
proof -
  have w: "wf_parser (new_Parser tokens)"
    using assms by (rule parse_initial_wf)
  then have s: "safe (new_Parser tokens) (parse tokens)"
    unfolding parse_def Parser_parse_def by (rule parse_loop_safe)
  have n: "parse tokens \<noteq> Raised msg st" for msg st
    unfolding parse_def Parser_parse_def by (rule parse_loop_no_raise)
  show ?thesis
  proof (cases "parse tokens")
    case (Done program st)
    with s show ?thesis by (auto simp: wf_parser_def new_Parser_def)
  next
    case (Raised msg st)
    with n [of msg st] show ?thesis by simp
  next
    case OutOfRange
    with s show ?thesis by simp
  qed
qed

section \<open>The parser stays inside the token vector\<close>

text \<open>
  Claim C10. The model ends a run with \<open>OutOfRange\<close> at the first read of \<open>m_tokens\<close>
  outside its bounds: \<open>m_tokens[m_current_pos]\<close> in \<open>peek\<close>, \<open>m_tokens[m_current_pos - 1]\<close>
  in \<open>advance\<close>, \<open>m_tokens[m_current_pos + 1]\<close> in \<open>parse_declaration\<close>. For every
  non-empty token vector whose last token is \<open>END_OF_FILE\<close>, \<open>parse\<close> returns a program:
  no such read happens, and the cursor is inside the vector at the end. The token
  vector of \<open>tokenize\<close> is such a vector, for every source.
\<close>

theorem C10_parser_reads_in_bounds:
  assumes "tokens \<noteq> []" and "t_type (last tokens) = END_OF_FILE"
  shows "parse tokens \<noteq> OutOfRange
    \<and> (\<exists>program st. parse tokens = Done program st
          \<and> m_tokens st = tokens \<and> m_pos st < length tokens)
    \<and> tokenize source \<noteq> [] \<and> t_type (last (tokenize source)) = END_OF_FILE
    \<and> parse (tokenize source) \<noteq> OutOfRange"
proof -
  note e = tokenize_ends_with_eof [of source]
  from e have "\<exists>program st. parse (tokenize source) = Done program st
      \<and> m_tokens st = tokenize source \<and> m_pos st < length (tokenize source)"
    by (intro parse_returns) simp_all
  with parse_returns [OF assms] e show ?thesis by auto
qed

theorem C10_parser_reads_in_bounds_witness:
  "return_zero_tokens \<noteq> [] \<and> t_type (last return_zero_tokens) = END_OF_FILE
   \<and> parse return_zero_tokens \<noteq> OutOfRange
   \<and> (\<exists>program st. parse return_zero_tokens = Done program st
         \<and> m_tokens st = return_zero_tokens \<and> m_pos st < length return_zero_tokens)"
proof -
  have a: "return_zero_tokens \<noteq> []"
    by (simp add: return_zero_tokens_def)
  have b: "t_type (last return_zero_tokens) = END_OF_FILE"
    by (simp add: return_zero_tokens_def)
  from C10_parser_reads_in_bounds [OF a b] a b show ?thesis by simp
qed

section \<open>The shape of parsed trees\<close>

text \<open>
  What the grammar functions can build: a statement of a block is a return of a number
  literal, and an entry of the top-level list is the null pointer of a skipped token or
  a function definition whose body is a list of such returns.
\<close>

fun is_return_of_literal :: "StmtNode option \<Rightarrow> bool" where
  "is_return_of_literal (Some (ReturnStmtNode (Some (NumberLiteralNode val)))) = True"
| "is_return_of_literal _ = False"

fun is_parsed_declaration :: "StmtNode option \<Rightarrow> bool" where
  "is_parsed_declaration None = True"
| "is_parsed_declaration (Some (FunctionDefNode return_type name (Some body))) =
     list_all is_return_of_literal body"
| "is_parsed_declaration _ = False"

lemma parse_statement_shape:
  assumes "parse_statement st = Done s st'"
  shows "s = None \<or> is_return_of_literal s"
proof -
  from assms have "(t_type (m_tokens st ! m_pos st) \<noteq> END_OF_FILE
        \<and> parse_return_statement st = Done s st') \<or> s = None"
    by (auto simp: parse_statement_def then_do_Done check_Done split: if_splits)
  then show ?thesis
    by (auto dest: parse_return_statement_Done)
qed

lemma block_loop_shape:
  "block_loop stmts st = Done r st' \<Longrightarrow> list_all is_return_of_literal stmts
     \<Longrightarrow> list_all is_return_of_literal r"
proof (induction stmts st rule: block_loop.induct)
  case (1 stmts st)
  from "1.prems"(1) obtain cb go where
    c: "check CLOSE_BRACE st = Done cb st"
    and g: "(if cb then Done False st
             else then_do (Parser_is_at_end st) (\<lambda>e st. Done (\<not> e) st)) = Done go st"
    and k: "(if go then
               then_do (parse_statement st) (\<lambda>stmt st.
                 block_loop (case stmt of Some _ \<Rightarrow> stmts @ [stmt] | None \<Rightarrow> stmts) st)
             else Done stmts st) = Done r st'"
    by (subst (asm) block_loop.simps)
       (auto simp: then_do_Done check_Done Parser_is_at_end_Done split: if_splits)
  show ?case
  proof (cases go)
    case False
    with k "1.prems"(2) show ?thesis by simp
  next
    case True
    with k obtain stmt st3 where
      p: "parse_statement st = Done stmt st3"
      and b: "block_loop (case stmt of Some _ \<Rightarrow> stmts @ [stmt] | None \<Rightarrow> stmts) st3 = Done r st'"
      by (auto simp: then_do_Done)
    from parse_statement_shape [OF p] "1.prems"(2)
    have "list_all is_return_of_literal (case stmt of Some _ \<Rightarrow> stmts @ [stmt] | None \<Rightarrow> stmts)"
      by (auto split: option.splits)
    with "1.IH" [OF c g True p b] show ?thesis by simp
  qed
qed

lemma parse_block_statement_shape:
  assumes "parse_block_statement st = Done body st'"
  shows "\<exists>stmts. body = Some stmts \<and> list_all is_return_of_literal stmts"
proof -
  from assms obtain st1 stmts st2 where
    b: "block_loop [] st1 = Done stmts st2" and r: "body = Some stmts"
    by (auto simp: parse_block_statement_def then_do_Done)
  from block_loop_shape [OF b] r show ?thesis by simp
qed

lemma parse_function_definition_shape:
  assumes "parse_function_definition st = Done d st'"
  shows "is_parsed_declaration d"
proof -
  from assms have "\<exists>return_type name st4 body.
      parse_block_statement st4 = Done body st'
      \<and> d = Some (FunctionDefNode return_type name body)"
    unfolding parse_function_definition_def then_do_Done by blast
  then obtain return_type name st4 body where
    b: "parse_block_statement st4 = Done body st'"
    and d: "d = Some (FunctionDefNode return_type name body)"
    by blast
  from parse_block_statement_shape [OF b] d show ?thesis by auto
qed

lemma parse_declaration_shape:
  assumes "parse_declaration st = Done d st'"
  shows "is_parsed_declaration d"
proof -
  from assms have "parse_function_definition st = Done d st' \<or> d = None"
    by (auto simp: parse_declaration_def then_do_Done check_Done split: if_splits)
  then show ?thesis
    by (auto dest: parse_function_definition_shape)
qed

lemma parse_loop_shape:
  "parse_loop program st = Done r st' \<Longrightarrow> list_all is_parsed_declaration (statements program)
     \<Longrightarrow> list_all is_parsed_declaration (statements r)"
proof (induction program st rule: parse_loop.induct)
  case (1 program st)
  from "1.prems"(1) obtain e where e: "Parser_is_at_end st = Done e st"
    by (subst (asm) parse_loop.simps) (auto simp: then_do_Done Parser_is_at_end_Done)
  show ?case
  proof (cases e)
    case True
    with e "1.prems" show ?thesis
      by (subst (asm) parse_loop.simps) simp
  next
    case False
    show ?thesis
    proof (cases "parse_declaration st")
      case d: (Done d st2)
      with e False "1.prems"(1)
      have l: "parse_loop (program\<lparr>statements := statements program @ [d]\<rparr>) st2 = Done r st'"
        by (subst (asm) parse_loop.simps) simp
      from parse_declaration_shape [OF d] "1.prems"(2)
      have "list_all is_parsed_declaration
          (statements (program\<lparr>statements := statements program @ [d]\<rparr>))"
        by simp
      with "1.IH" [OF e False d l] show ?thesis by simp
    next
      case (Raised msg st2)
      with e False "1.prems" show ?thesis
        by (subst (asm) parse_loop.simps) simp
    next
      case OutOfRange
      with e False "1.prems" show ?thesis
        by (subst (asm) parse_loop.simps) simp
    qed
  qed
qed

lemma parse_shape:
  assumes "parse tokens = Done program st"
  shows "list_all is_parsed_declaration (statements program)"
  using assms parse_loop_shape [of "\<lparr>statements = []\<rparr>" "new_Parser tokens" program st]
  by (simp add: parse_def Parser_parse_def)

section \<open>Return nodes and their expression\<close>

text \<open>
  \<open>returns_have_expression s\<close>: in the statement \<open>s\<close> and everything below it, no
  \<open>ReturnStmtNode\<close> has the null pointer as its expression.
\<close>

fun returns_have_expression :: "StmtNode option \<Rightarrow> bool"
  and all_returns_have_expression :: "StmtNode option list \<Rightarrow> bool"
where
  "returns_have_expression None = True"
| "returns_have_expression (Some (ReturnStmtNode expression)) = (expression \<noteq> None)"
| "returns_have_expression (Some (BlockStmtNode stmts)) = all_returns_have_expression stmts"
| "returns_have_expression (Some (FunctionDefNode return_type name body)) =
     (case body of None \<Rightarrow> True | Some stmts \<Rightarrow> all_returns_have_expression stmts)"
| "all_returns_have_expression [] = True"
| "all_returns_have_expression (stmt # rest) =
     (returns_have_expression stmt \<and> all_returns_have_expression rest)"

lemma return_of_literal_has_expression:
  "is_return_of_literal s \<Longrightarrow> returns_have_expression s"
  by (induction s rule: is_return_of_literal.induct) simp_all

lemma returns_of_literal_have_expression:
  "list_all is_return_of_literal stmts \<Longrightarrow> all_returns_have_expression stmts"
  by (induction stmts) (simp_all add: return_of_literal_has_expression)

lemma parsed_declaration_has_expression:
  "is_parsed_declaration d \<Longrightarrow> returns_have_expression d"
  by (induction d rule: is_parsed_declaration.induct)
     (simp_all add: returns_of_literal_have_expression)

lemma parsed_declarations_have_expression:
  "list_all is_parsed_declaration ds \<Longrightarrow> all_returns_have_expression ds"
  by (induction ds) (simp_all add: parsed_declaration_has_expression)

lemma parse_expression_in_range:
  assumes "m_pos st < length (m_tokens st)"
  shows "parse_expression st =
     (if t_type (m_tokens st ! m_pos st) = NUMBER_LITERAL
      then Done (Some (NumberLiteralNode (t_value (m_tokens st ! m_pos st))))
             (st\<lparr>m_pos := m_pos st + 1\<rparr>)
      else Raised ''Expected an expression (e.g., a number).'' st)"
  using assms
  by (simp add: parse_expression_def check_def Parser_is_at_end_def Parser_peek_def
      Parser_advance_def Let_def)

definition missing_expression_tokens :: "Token list" where
  "missing_expression_tokens =
     [\<lparr>t_type = INT_KW, t_value = ''int'', t_line = 1\<rparr>,
      \<lparr>t_type = IDENTIFIER, t_value = ''main'', t_line = 1\<rparr>,
      \<lparr>t_type = OPEN_PAREN, t_value = ''('', t_line = 1\<rparr>,
      \<lparr>t_type = CLOSE_PAREN, t_value = '')'', t_line = 1\<rparr>,
      \<lparr>t_type = OPEN_BRACE, t_value = ''{'', t_line = 1\<rparr>,
      \<lparr>t_type = RETURN, t_value = ''return'', t_line = 1\<rparr>,
      \<lparr>t_type = SEMICOLON, t_value = '';'', t_line = 1\<rparr>,
      \<lparr>t_type = CLOSE_BRACE, t_value = ''}'', t_line = 1\<rparr>,
      \<lparr>t_type = END_OF_FILE, t_value = [], t_line = 1\<rparr>]"

lemma parse_missing_expression:
  "parse missing_expression_tokens
     = Done \<lparr>statements = []\<rparr>
         \<lparr>m_tokens = missing_expression_tokens, m_pos = 6,
           parse_cerr = [''Parse Error: Expected an expression (e.g., a number).'']\<rparr>"
  by code_simp

text \<open>
  Claim C8. In every program that \<open>parse\<close> returns, every \<open>ReturnStmtNode\<close> has an
  expression. \<open>parse_expression\<close> never returns the null pointer: with the cursor on a
  token that is not a number literal it throws "Expected an expression", and otherwise
  it returns a \<open>NumberLiteralNode\<close>. On every non-empty token vector that ends with
  \<open>END_OF_FILE\<close>, \<open>parse\<close> does return a program.
\<close>

theorem C8_return_has_expression:
  "(parse tokens = Done program st \<longrightarrow> all_returns_have_expression (statements program))
   \<and> (parse_expression st1 = Done e st1' \<longrightarrow> e \<noteq> None)
   \<and> (m_pos st2 < length (m_tokens st2) \<and> t_type (m_tokens st2 ! m_pos st2) \<noteq> NUMBER_LITERAL
        \<longrightarrow> parse_expression st2 = Raised ''Expected an expression (e.g., a number).'' st2)
   \<and> (tokens \<noteq> [] \<and> t_type (last tokens) = END_OF_FILE
        \<longrightarrow> (\<exists>program st. parse tokens = Done program st))"
proof (intro conjI impI)
  assume "parse tokens = Done program st"
  then have "list_all is_parsed_declaration (statements program)"
    by (rule parse_shape)
  then show "all_returns_have_expression (statements program)"
    by (rule parsed_declarations_have_expression)
next
  assume "parse_expression st1 = Done e st1'"
  then show "e \<noteq> None" by (simp add: parse_expression_Done)
next
  assume "m_pos st2 < length (m_tokens st2)
      \<and> t_type (m_tokens st2 ! m_pos st2) \<noteq> NUMBER_LITERAL"
  then show "parse_expression st2 = Raised ''Expected an expression (e.g., a number).'' st2"
    by (simp add: parse_expression_in_range)
next
  assume "tokens \<noteq> [] \<and> t_type (last tokens) = END_OF_FILE"
  then show "\<exists>program st. parse tokens = Done program st"
    using parse_returns [of tokens] by blast
qed

text \<open>
  The witness: the tree of \<open>int main() { return 0; }\<close> has its return expression; a
  parser on the two tokens \<open>0\<close> and end-of-stream returns the literal; on \<open>;\<close> and
  end-of-stream it throws. The tokens of \<open>int main() { return ; }\<close> show the throw
  ending the parse of the enclosing function: the program is empty.
\<close>

theorem C8_return_has_expression_witness:
  "parse return_zero_tokens
     = Done return_zero_ast \<lparr>m_tokens = return_zero_tokens, m_pos = 9, parse_cerr = []\<rparr>
   \<and> all_returns_have_expression (statements return_zero_ast)
   \<and> parse_expression (new_Parser [\<lparr>t_type = NUMBER_LITERAL, t_value = ''0'', t_line = 1\<rparr>,
          \<lparr>t_type = END_OF_FILE, t_value = [], t_line = 1\<rparr>])
       = Done (Some (NumberLiteralNode ''0''))
           \<lparr>m_tokens = [\<lparr>t_type = NUMBER_LITERAL, t_value = ''0'', t_line = 1\<rparr>,
              \<lparr>t_type = END_OF_FILE, t_value = [], t_line = 1\<rparr>], m_pos = 1, parse_cerr = []\<rparr>
   \<and> parse_expression (new_Parser [\<lparr>t_type = SEMICOLON, t_value = '';'', t_line = 1\<rparr>,
          \<lparr>t_type = END_OF_FILE, t_value = [], t_line = 1\<rparr>])
       = Raised ''Expected an expression (e.g., a number).''
           (new_Parser [\<lparr>t_type = SEMICOLON, t_value = '';'', t_line = 1\<rparr>,
              \<lparr>t_type = END_OF_FILE, t_value = [], t_line = 1\<rparr>])
   \<and> return_zero_tokens \<noteq> [] \<and> t_type (last return_zero_tokens) = END_OF_FILE
   \<and> statements (case parse missing_expression_tokens of Done program st \<Rightarrow> program) = []"
proof -
  let ?num = "new_Parser [\<lparr>t_type = NUMBER_LITERAL, t_value = ''0'', t_line = 1\<rparr>,
          \<lparr>t_type = END_OF_FILE, t_value = [], t_line = 1\<rparr>]"
  let ?semi = "new_Parser [\<lparr>t_type = SEMICOLON, t_value = '';'', t_line = 1\<rparr>,
          \<lparr>t_type = END_OF_FILE, t_value = [], t_line = 1\<rparr>]"
  have n: "parse_expression ?num = Done (Some (NumberLiteralNode ''0''))
           \<lparr>m_tokens = [\<lparr>t_type = NUMBER_LITERAL, t_value = ''0'', t_line = 1\<rparr>,
              \<lparr>t_type = END_OF_FILE, t_value = [], t_line = 1\<rparr>], m_pos = 1, parse_cerr = []\<rparr>"
    by (simp add: parse_expression_in_range new_Parser_def)
  have r: "m_pos ?semi < length (m_tokens ?semi)
      \<and> t_type (m_tokens ?semi ! m_pos ?semi) \<noteq> NUMBER_LITERAL"
    by (simp add: new_Parser_def)
  have t: "return_zero_tokens \<noteq> [] \<and> t_type (last return_zero_tokens) = END_OF_FILE"
    by (simp add: return_zero_tokens_def)
  note c = C8_return_has_expression [of return_zero_tokens return_zero_ast
      "\<lparr>m_tokens = return_zero_tokens, m_pos = 9, parse_cerr = []\<rparr>" ?num
      "Some (NumberLiteralNode ''0'')"
      "\<lparr>m_tokens = [\<lparr>t_type = NUMBER_LITERAL, t_value = ''0'', t_line = 1\<rparr>,
              \<lparr>t_type = END_OF_FILE, t_value = [], t_line = 1\<rparr>], m_pos = 1, parse_cerr = []\<rparr>"
      ?semi]
  from c parse_return_zero have 1: "all_returns_have_expression (statements return_zero_ast)"
    by blast
  from c r have 2: "parse_expression ?semi
      = Raised ''Expected an expression (e.g., a number).'' ?semi"
    by blast
  show ?thesis
    using 1 2 n t by (simp add: parse_return_zero parse_missing_expression)
qed

section \<open>Blocks and null entries\<close>

text \<open>
  \<open>blocks_without_null s\<close>: every block in the statement \<open>s\<close>, the body of a function
  definition included, has a statement vector without null pointers.
  \<open>block_entries_present\<close> is the condition on one such vector.
\<close>

fun blocks_without_null :: "StmtNode option \<Rightarrow> bool"
  and block_entries_present :: "StmtNode option list \<Rightarrow> bool"
where
  "blocks_without_null None = True"
| "blocks_without_null (Some (ReturnStmtNode expression)) = True"
| "blocks_without_null (Some (BlockStmtNode stmts)) = block_entries_present stmts"
| "blocks_without_null (Some (FunctionDefNode return_type name body)) =
     (case body of None \<Rightarrow> True | Some stmts \<Rightarrow> block_entries_present stmts)"
| "block_entries_present [] = True"
| "block_entries_present (stmt # rest) =
     (stmt \<noteq> None \<and> blocks_without_null stmt \<and> block_entries_present rest)"

lemma return_of_literal_present:
  "is_return_of_literal s \<Longrightarrow> s \<noteq> None \<and> blocks_without_null s"
  by (induction s rule: is_return_of_literal.induct) simp_all

lemma returns_of_literal_present:
  "list_all is_return_of_literal stmts \<Longrightarrow> block_entries_present stmts"
  by (induction stmts) (simp_all add: return_of_literal_present)

lemma parsed_declaration_without_null:
  "is_parsed_declaration d \<Longrightarrow> blocks_without_null d"
  by (induction d rule: is_parsed_declaration.induct)
     (simp_all add: returns_of_literal_present)

lemma parsed_declarations_without_null:
  "list_all is_parsed_declaration ds \<Longrightarrow> list_all blocks_without_null ds"
  by (induction ds) (simp_all add: parsed_declaration_without_null)

lemma block_loop_skip:
  assumes "wf_parser st" and "t_type (cur st) \<noteq> RETURN"
    and "t_type (cur st) \<noteq> CLOSE_BRACE" and "t_type (cur st) \<noteq> END_OF_FILE"
  shows "block_loop stmts st =
     block_loop stmts
       (cerr_line (''Parser Warning: Skipping unknown token in block: '' @ to_string (cur st))
          (next_pos st))"
proof -
  have "parse_statement st = Done None
      (cerr_line (''Parser Warning: Skipping unknown token in block: '' @ to_string (cur st))
         (next_pos st))"
    using assms by (simp add: parse_statement_def check_wf Parser_advance_wf)
  with assms show ?thesis
    by (subst block_loop_wf) simp_all
qed

text \<open>The tokens of \<open>; int main() { foo return 0; }\<close> and what \<open>parse\<close> makes of them.\<close>

definition skipped_tokens :: "Token list" where
  "skipped_tokens =
     [\<lparr>t_type = SEMICOLON, t_value = '';'', t_line = 1\<rparr>,
      \<lparr>t_type = INT_KW, t_value = ''int'', t_line = 1\<rparr>,
      \<lparr>t_type = IDENTIFIER, t_value = ''main'', t_line = 1\<rparr>,
      \<lparr>t_type = OPEN_PAREN, t_value = ''('', t_line = 1\<rparr>,
      \<lparr>t_type = CLOSE_PAREN, t_value = '')'', t_line = 1\<rparr>,
      \<lparr>t_type = OPEN_BRACE, t_value = ''{'', t_line = 1\<rparr>,
      \<lparr>t_type = IDENTIFIER, t_value = ''foo'', t_line = 1\<rparr>,
      \<lparr>t_type = RETURN, t_value = ''return'', t_line = 1\<rparr>,
      \<lparr>t_type = NUMBER_LITERAL, t_value = ''0'', t_line = 1\<rparr>,
      \<lparr>t_type = SEMICOLON, t_value = '';'', t_line = 1\<rparr>,
      \<lparr>t_type = CLOSE_BRACE, t_value = ''}'', t_line = 1\<rparr>,
      \<lparr>t_type = END_OF_FILE, t_value = [], t_line = 1\<rparr>]"

definition skipped_ast :: ProgramNode where
  "skipped_ast =
     \<lparr>statements = [None, Some (FunctionDefNode ''int'' ''main''
        (Some [Some (ReturnStmtNode (Some (NumberLiteralNode ''0'')))]))]\<rparr>"

lemma parse_skipped:
  "parse skipped_tokens
     = Done skipped_ast
         \<lparr>m_tokens = skipped_tokens, m_pos = 11,
           parse_cerr =
             [''Parser Warning: Skipping unknown top-level token: ''
                @ ''Token [Type: SEMICOLON, Value: '' @ [CHR 0x27] @ '';'' @ [CHR 0x27]
                @ '', Line: 1]'',
              ''Parser Warning: Skipping unknown token in block: ''
                @ ''Token [Type: IDENTIFIER, Value: '' @ [CHR 0x27] @ ''foo'' @ [CHR 0x27]
                @ '', Line: 1]'']\<rparr>"
  by code_simp

text \<open>
  Claim C9. In every program that \<open>parse\<close> returns, no block holds a null entry. A token
  inside a block that starts no statement is consumed with a warning and the loop goes
  on with the same vector of statements: nothing is appended for it. Null entries are
  entries of the top-level list only. On every non-empty token vector that ends with
  \<open>END_OF_FILE\<close>, \<open>parse\<close> does return a program.
\<close>

theorem C9_blocks_without_null:
  "(parse tokens = Done program st \<longrightarrow> list_all blocks_without_null (statements program))
   \<and> (wf_parser st0 \<and> t_type (cur st0) \<noteq> RETURN \<and> t_type (cur st0) \<noteq> CLOSE_BRACE
        \<and> t_type (cur st0) \<noteq> END_OF_FILE
      \<longrightarrow> block_loop stmts st0 =
           block_loop stmts
             (cerr_line (''Parser Warning: Skipping unknown token in block: ''
                @ to_string (cur st0)) (next_pos st0)))
   \<and> (tokens \<noteq> [] \<and> t_type (last tokens) = END_OF_FILE
        \<longrightarrow> (\<exists>program st. parse tokens = Done program st))"
proof (intro conjI impI)
  assume "parse tokens = Done program st"
  then have "list_all is_parsed_declaration (statements program)"
    by (rule parse_shape)
  then show "list_all blocks_without_null (statements program)"
    by (rule parsed_declarations_without_null)
next
  assume "wf_parser st0 \<and> t_type (cur st0) \<noteq> RETURN \<and> t_type (cur st0) \<noteq> CLOSE_BRACE
        \<and> t_type (cur st0) \<noteq> END_OF_FILE"
  then show "block_loop stmts st0 =
           block_loop stmts
             (cerr_line (''Parser Warning: Skipping unknown token in block: ''
                @ to_string (cur st0)) (next_pos st0))"
    by (intro block_loop_skip) simp_all
next
  assume "tokens \<noteq> [] \<and> t_type (last tokens) = END_OF_FILE"
  then show "\<exists>program st. parse tokens = Done program st"
    using parse_returns [of tokens] by blast
qed

text \<open>
  The witness, on the tokens of \<open>; int main() { foo return 0; }\<close>: the top-level list
  has the null entry of the semicolon, the body of \<open>main\<close> has the return only, and the
  round of the block loop on \<open>foo\<close> (cursor 6) leaves the statements as they are.
\<close>

theorem C9_blocks_without_null_witness:
  "parse skipped_tokens = Done skipped_ast (case parse skipped_tokens of Done program st \<Rightarrow> st)
   \<and> statements skipped_ast = [None, Some (FunctionDefNode ''int'' ''main''
        (Some [Some (ReturnStmtNode (Some (NumberLiteralNode ''0'')))]))]
   \<and> list_all blocks_without_null (statements skipped_ast)
   \<and> wf_parser \<lparr>m_tokens = skipped_tokens, m_pos = 6, parse_cerr = []\<rparr>
   \<and> t_type (cur \<lparr>m_tokens = skipped_tokens, m_pos = 6, parse_cerr = []\<rparr>) = IDENTIFIER
   \<and> block_loop [] \<lparr>m_tokens = skipped_tokens, m_pos = 6, parse_cerr = []\<rparr>
       = block_loop []
           (cerr_line (''Parser Warning: Skipping unknown token in block: ''
                @ to_string (cur \<lparr>m_tokens = skipped_tokens, m_pos = 6, parse_cerr = []\<rparr>))
              (next_pos \<lparr>m_tokens = skipped_tokens, m_pos = 6, parse_cerr = []\<rparr>))
   \<and> skipped_tokens \<noteq> [] \<and> t_type (last skipped_tokens) = END_OF_FILE
   \<and> (\<exists>program st. parse skipped_tokens = Done program st)"
proof -
  let ?st = "\<lparr>m_tokens = skipped_tokens, m_pos = 6, parse_cerr = []\<rparr>"
  have p: "parse skipped_tokens
      = Done skipped_ast (case parse skipped_tokens of Done program st \<Rightarrow> st)"
    by (simp add: parse_skipped)
  have w: "wf_parser ?st"
    by (simp add: wf_parser_def skipped_tokens_def)
  have c: "t_type (cur ?st) = IDENTIFIER"
    by (simp add: cur_def skipped_tokens_def)
  have t: "skipped_tokens \<noteq> [] \<and> t_type (last skipped_tokens) = END_OF_FILE"
    by (simp add: skipped_tokens_def)
  note k = C9_blocks_without_null [of skipped_tokens skipped_ast
      "case parse skipped_tokens of Done program st \<Rightarrow> st" ?st "[]"]
  from k p have 1: "list_all blocks_without_null (statements skipped_ast)"
    by blast
  from k w c have 2: "block_loop [] ?st
       = block_loop []
           (cerr_line (''Parser Warning: Skipping unknown token in block: ''
                @ to_string (cur ?st)) (next_pos ?st))"
    by simp
  from k t have 3: "\<exists>program st. parse skipped_tokens = Done program st"
    by blast
  have 4: "statements skipped_ast = [None, Some (FunctionDefNode ''int'' ''main''
        (Some [Some (ReturnStmtNode (Some (NumberLiteralNode ''0'')))]))]"
    by (simp add: skipped_ast_def)
  from p 4 1 w c 2 t 3 show ?thesis by blast
qed

section \<open>Skipping a token at top level\<close>

text \<open>
  \<open>shifted t q st\<close> is the state \<open>st\<close> seen from a parser that has one more token \<open>t\<close> in
  front of the vector and the lines \<open>q\<close> already on \<open>std::cerr\<close>: the cursor is one
  place further. \<open>lift\<close> moves an outcome in the same way. On well-formed states the
  member functions cannot tell the difference.
\<close>

definition shifted :: "Token \<Rightarrow> string list \<Rightarrow> Parser \<Rightarrow> Parser" where
  "shifted t q st =
     \<lparr>m_tokens = t # m_tokens st, m_pos = m_pos st + 1, parse_cerr = q @ parse_cerr st\<rparr>"

fun lift :: "Token \<Rightarrow> string list \<Rightarrow> 'a outcome \<Rightarrow> 'a outcome" where
  "lift t q (Done x st) = Done x (shifted t q st)"
| "lift t q (Raised msg st) = Raised msg (shifted t q st)"
| "lift t q OutOfRange = OutOfRange"

lemma wf_parser_shifted: "wf_parser st \<Longrightarrow> wf_parser (shifted t q st)"
  by (auto simp: wf_parser_def shifted_def)

lemma cur_shifted [simp]: "cur (shifted t q st) = cur st"
  by (simp add: cur_def shifted_def)

lemma next_pos_shifted: "next_pos (shifted t q st) = shifted t q (next_pos st)"
  by (simp add: next_pos_def shifted_def)

lemma cerr_line_shifted: "cerr_line text (shifted t q st) = shifted t q (cerr_line text st)"
  by (simp add: cerr_line_def shifted_def)

lemma safe_Done: "safe st m \<Longrightarrow> m = Done x st' \<Longrightarrow> wf_parser st'"
  by simp

lemma lift_then_do:
  assumes "safe st m" and "m' = lift t q m"
    and "\<And>x st1. m = Done x st1 \<Longrightarrow> wf_parser st1 \<Longrightarrow> g x (shifted t q st1) = lift t q (g x st1)"
  shows "then_do m' g = lift t q (then_do m g)"
proof (cases m)
  case (Done x st1)
  with assms(1) have "wf_parser st1" by simp
  from assms(3) [OF Done this] Done assms(2) show ?thesis by simp
next
  case (Raised msg st1)
  with assms(2) show ?thesis by simp
next
  case OutOfRange
  with assms(2) show ?thesis by simp
qed

lemma Parser_advance_shifted:
  assumes "wf_parser st" and "t_type (cur st) \<noteq> END_OF_FILE"
  shows "Parser_advance (shifted t q st) = lift t q (Parser_advance st)"
  using assms wf_parser_shifted [OF assms(1), of t q]
  by (simp add: Parser_advance_wf next_pos_shifted)

lemma expect_shifted:
  assumes "wf_parser st"
  shows "expect ty msg (shifted t q st) = lift t q (expect ty msg st)"
  using assms wf_parser_shifted [OF assms, of t q]
  by (simp add: expect_wf next_pos_shifted)

lemma parse_expression_shifted:
  assumes "wf_parser st"
  shows "parse_expression (shifted t q st) = lift t q (parse_expression st)"
  using assms wf_parser_shifted [OF assms, of t q]
  by (simp add: parse_expression_def check_wf Parser_advance_wf next_pos_shifted)

lemma parse_return_statement_shifted:
  assumes "wf_parser st" and "t_type (cur st) \<noteq> END_OF_FILE"
  shows "parse_return_statement (shifted t q st) = lift t q (parse_return_statement st)"
  unfolding parse_return_statement_def
proof (rule lift_then_do [where st = st])
  show "safe st (Parser_advance st)"
    using assms by (rule Parser_advance_safe)
  show "Parser_advance (shifted t q st) = lift t q (Parser_advance st)"
    using assms by (rule Parser_advance_shifted)
next
  fix x st1
  assume w1: "wf_parser st1"
  show "then_do (parse_expression (shifted t q st1)) (\<lambda>expr st.
          then_do (expect SEMICOLON (''Expected '' @ [CHR 0x27] @ '';'' @ [CHR 0x27] @ '' after return value.'') st)
            (\<lambda>_ st. Done (Some (ReturnStmtNode expr)) st))
      = lift t q (then_do (parse_expression st1) (\<lambda>expr st.
          then_do (expect SEMICOLON (''Expected '' @ [CHR 0x27] @ '';'' @ [CHR 0x27] @ '' after return value.'') st)
            (\<lambda>_ st. Done (Some (ReturnStmtNode expr)) st)))"
  proof (rule lift_then_do [where st = st1])
    show "safe st1 (parse_expression st1)"
      using w1 by (rule parse_expression_safe)
    show "parse_expression (shifted t q st1) = lift t q (parse_expression st1)"
      using w1 by (rule parse_expression_shifted)
  next
    fix e st2
    assume w2: "wf_parser st2"
    show "then_do (expect SEMICOLON (''Expected '' @ [CHR 0x27] @ '';'' @ [CHR 0x27] @ '' after return value.'') (shifted t q st2))
            (\<lambda>_ st. Done (Some (ReturnStmtNode e)) st)
        = lift t q (then_do (expect SEMICOLON (''Expected '' @ [CHR 0x27] @ '';'' @ [CHR 0x27] @ '' after return value.'') st2)
            (\<lambda>_ st. Done (Some (ReturnStmtNode e)) st))"
      by (rule lift_then_do [where st = st2])
         (simp_all only: expect_safe [OF w2] expect_shifted [OF w2] lift.simps)
  qed
qed

lemma parse_statement_shifted:
  assumes "wf_parser st" and "t_type (cur st) \<noteq> END_OF_FILE"
  shows "parse_statement (shifted t q st) = lift t q (parse_statement st)"
  using assms wf_parser_shifted [OF assms(1), of t q]
  by (simp add: parse_statement_def check_wf Parser_advance_wf parse_return_statement_shifted
      next_pos_shifted cerr_line_shifted)

lemma block_loop_shifted:
  "wf_parser st \<Longrightarrow> block_loop stmts (shifted t q st) = lift t q (block_loop stmts st)"
proof (induction "length (m_tokens st) - m_pos st" arbitrary: st stmts rule: less_induct)
  case less
  note w = less.prems
  have w': "wf_parser (shifted t q st)"
    using w by (rule wf_parser_shifted)
  show ?case
  proof (cases "t_type (cur st) = CLOSE_BRACE \<or> t_type (cur st) = END_OF_FILE")
    case True
    then show ?thesis
      by (simp add: block_loop_wf [OF w] block_loop_wf [OF w'])
  next
    case False
    have "then_do (parse_statement (shifted t q st)) (\<lambda>stmt st'.
          block_loop (case stmt of Some _ \<Rightarrow> stmts @ [stmt] | None \<Rightarrow> stmts) st')
        = lift t q (then_do (parse_statement st) (\<lambda>stmt st'.
          block_loop (case stmt of Some _ \<Rightarrow> stmts @ [stmt] | None \<Rightarrow> stmts) st'))"
    proof (rule lift_then_do [where st = st])
      show "safe st (parse_statement st)"
        using w False by (simp add: parse_statement_safe)
      show "parse_statement (shifted t q st) = lift t q (parse_statement st)"
        using w False by (simp add: parse_statement_shifted)
    next
      fix x st1
      assume d: "parse_statement st = Done x st1" and w1: "wf_parser st1"
      from False have "t_type (m_tokens st ! m_pos st) \<noteq> END_OF_FILE"
        by (simp add: cur_def)
      with d have "m_tokens st1 = m_tokens st \<and> m_pos st < m_pos st1"
        by (rule parse_statement_Done)
      with w have "length (m_tokens st1) - m_pos st1 < length (m_tokens st) - m_pos st"
        by (intro measure_decreases) simp_all
      from less.hyps [OF this w1]
      show "block_loop (case x of Some _ \<Rightarrow> stmts @ [x] | None \<Rightarrow> stmts) (shifted t q st1)
          = lift t q (block_loop (case x of Some _ \<Rightarrow> stmts @ [x] | None \<Rightarrow> stmts) st1)" .
    qed
    with False show ?thesis
      by (simp add: block_loop_wf [OF w] block_loop_wf [OF w'])
  qed
qed

lemma parse_block_statement_shifted:
  assumes "wf_parser st"
  shows "parse_block_statement (shifted t q st) = lift t q (parse_block_statement st)"
  unfolding parse_block_statement_def
  apply (rule lift_then_do [where st = st])
    apply (rule expect_safe [OF assms])
   apply (rule expect_shifted [OF assms])
  subgoal for x st1
    apply (rule lift_then_do [where st = st1])
      apply (rule block_loop_safe, assumption)
     apply (rule block_loop_shifted, assumption)
    subgoal for stmts st2
      apply (rule lift_then_do [where st = st2])
        apply (rule expect_safe, assumption)
       apply (rule expect_shifted, assumption)
      apply simp
      done
    done
  done

lemma parse_function_definition_shifted:
  assumes "wf_parser st" and "t_type (cur st) \<noteq> END_OF_FILE"
  shows "parse_function_definition (shifted t q st) = lift t q (parse_function_definition st)"
  unfolding parse_function_definition_def
  apply (rule lift_then_do [where st = st])
    apply (rule Parser_advance_safe [OF assms])
   apply (rule Parser_advance_shifted [OF assms])
  subgoal for ty st1
    apply (rule lift_then_do [where st = st1])
      apply (rule expect_safe, assumption)
     apply (rule expect_shifted, assumption)
    subgoal for name st2
      apply (rule lift_then_do [where st = st2])
        apply (rule expect_safe, assumption)
       apply (rule expect_shifted, assumption)
      subgoal for p1 st3
        apply (rule lift_then_do [where st = st3])
          apply (rule expect_safe, assumption)
         apply (rule expect_shifted, assumption)
        subgoal for p2 st4
          apply (rule lift_then_do [where st = st4])
            apply (rule parse_block_statement_safe, assumption)
           apply (rule parse_block_statement_shifted, assumption)
          apply simp
          done
        done
      done
    done
  done

lemma parse_declaration_shifted:
  assumes "wf_parser st" and "t_type (cur st) \<noteq> END_OF_FILE"
  shows "parse_declaration (shifted t q st) = lift t q (parse_declaration st)"
proof -
  have w': "wf_parser (shifted t q st)"
    using assms(1) by (rule wf_parser_shifted)
  have c': "t_type (cur (shifted t q st)) \<noteq> END_OF_FILE"
    using assms(2) by simp
  have l: "m_tokens (shifted t q st) ! Suc (m_pos (shifted t q st)) = m_tokens st ! Suc (m_pos st)"
    by (simp add: shifted_def)
  show ?thesis
    unfolding parse_declaration_wf [OF assms] parse_declaration_wf [OF w' c']
    using assms
    by (simp add: l parse_function_definition_shifted next_pos_shifted cerr_line_shifted)
qed

text \<open>
  The loop of \<open>parse\<close>, seen from the longer vector and with the statements \<open>pre\<close>
  already pushed: the same program after \<open>pre\<close>.
\<close>

fun lift_program :: "StmtNode option list \<Rightarrow> Token \<Rightarrow> string list
    \<Rightarrow> ProgramNode outcome \<Rightarrow> ProgramNode outcome" where
  "lift_program pre t q (Done program st) =
     Done (program\<lparr>statements := pre @ statements program\<rparr>) (shifted t q st)"
| "lift_program pre t q (Raised msg st) = Raised msg (shifted t q st)"
| "lift_program pre t q OutOfRange = OutOfRange"

lemma parse_loop_shifted:
  "wf_parser st \<Longrightarrow>
     parse_loop (program\<lparr>statements := pre @ statements program\<rparr>) (shifted t q st)
       = lift_program pre t q (parse_loop program st)"
proof (induction "length (m_tokens st) - m_pos st" arbitrary: st program rule: less_induct)
  case less
  note w = less.prems
  have w': "wf_parser (shifted t q st)"
    using w by (rule wf_parser_shifted)
  show ?case
  proof (cases "t_type (cur st) = END_OF_FILE")
    case True
    then show ?thesis
      by (simp add: parse_loop_wf [OF w] parse_loop_wf [OF w'])
  next
    case False
    with w have d': "parse_declaration (shifted t q st) = lift t q (parse_declaration st)"
      by (rule parse_declaration_shifted)
    from w False have s: "safe st (parse_declaration st)"
      by (rule parse_declaration_safe)
    show ?thesis
    proof (cases "parse_declaration st")
      case d: (Done d st1)
      with s have w1: "wf_parser st1" by simp
      from False have "t_type (m_tokens st ! m_pos st) \<noteq> END_OF_FILE"
        by (simp add: cur_def)
      with d have "m_tokens st1 = m_tokens st \<and> m_pos st < m_pos st1"
        by (rule parse_declaration_Done)
      with w have "length (m_tokens st1) - m_pos st1 < length (m_tokens st) - m_pos st"
        by (intro measure_decreases) simp_all
      from less.hyps [OF this w1, of "program\<lparr>statements := statements program @ [d]\<rparr>"]
      have "parse_loop (program\<lparr>statements := pre @ statements program @ [d]\<rparr>) (shifted t q st1)
          = lift_program pre t q
              (parse_loop (program\<lparr>statements := statements program @ [d]\<rparr>) st1)"
        by simp
      with False d d' show ?thesis
        by (simp add: parse_loop_wf [OF w] parse_loop_wf [OF w'])
    next
      case (Raised msg st1)
      with False d' show ?thesis
        by (simp add: parse_loop_wf [OF w] parse_loop_wf [OF w'] cerr_line_shifted)
    next
      case OutOfRange
      with False d' show ?thesis
        by (simp add: parse_loop_wf [OF w] parse_loop_wf [OF w'])
    qed
  qed
qed

definition semicolon_token :: Token where
  "semicolon_token = \<lparr>t_type = SEMICOLON, t_value = '';'', t_line = 1\<rparr>"

definition eof_token :: Token where
  "eof_token = \<lparr>t_type = END_OF_FILE, t_value = [], t_line = 1\<rparr>"

text \<open>
  Claim C4, as stated, fails. On a bare semicolon followed by end-of-stream, \<open>parse\<close>
  pushes the null pointer that \<open>parse_declaration\<close> returned: the statements list of
  the program has one entry. When the first token is the end-of-stream token itself
  (it is not \<open>int\<close> followed by an identifier either), nothing is reported and nothing
  is discarded. On a vector without end-of-stream token, the semicolon alone, the next
  \<open>peek\<close> reads outside the vector.
\<close>

theorem C4_skipped_token_counterexample:
  "parse [semicolon_token, eof_token]
     = Done \<lparr>statements = [None]\<rparr>
         \<lparr>m_tokens = [semicolon_token, eof_token], m_pos = 1,
           parse_cerr = [''Parser Warning: Skipping unknown top-level token: ''
                @ ''Token [Type: SEMICOLON, Value: '' @ [CHR 0x27] @ '';'' @ [CHR 0x27]
                @ '', Line: 1]'']\<rparr>
   \<and> parse [eof_token]
     = Done \<lparr>statements = []\<rparr> \<lparr>m_tokens = [eof_token], m_pos = 0, parse_cerr = []\<rparr>
   \<and> parse [semicolon_token] = OutOfRange"
  by code_simp

text \<open>
  Claim C4, amended. Let a token vector end with \<open>END_OF_FILE\<close> and start with a token
  \<open>t\<close> that is neither \<open>END_OF_FILE\<close> nor the keyword \<open>int\<close> followed by an identifier.
  Then \<open>parse\<close> writes the warning with \<open>t\<close> to \<open>std::cerr\<close>, moves the cursor over this
  one token, pushes one null entry for it, and goes on: what follows, in the
  statements, on \<open>std::cerr\<close> and for the cursor, is what \<open>parse\<close> does on the remaining
  tokens alone.
\<close>

theorem C4_skipped_token_leaves_null_entry:
  assumes "t_type (last (u # rest)) = END_OF_FILE"
    and "t_type t \<noteq> END_OF_FILE"
    and "\<not> (t_type t = INT_KW \<and> t_type u = IDENTIFIER)"
  shows "\<exists>program st. parse (u # rest) = Done program st
     \<and> parse (t # u # rest)
       = Done (program\<lparr>statements := None # statements program\<rparr>)
           (st\<lparr>m_tokens := t # u # rest, m_pos := m_pos st + 1,
               parse_cerr := (''Parser Warning: Skipping unknown top-level token: ''
                  @ to_string t) # parse_cerr st\<rparr>)"
proof -
  define w where "w = ''Parser Warning: Skipping unknown top-level token: '' @ to_string t"
  let ?st0 = "new_Parser (t # u # rest)"
  let ?st1 = "new_Parser (u # rest)"
  have w0: "wf_parser ?st0"
    using assms(1) by (simp add: wf_parser_def new_Parser_def)
  have w1: "wf_parser ?st1"
    using assms(1) by (simp add: wf_parser_def new_Parser_def)
  have c0: "t_type (cur ?st0) \<noteq> END_OF_FILE"
    using assms(2) by (simp add: cur_def new_Parser_def)
  have n: "\<not> (t_type (cur ?st0) = INT_KW
      \<and> t_type (m_tokens ?st0 ! (m_pos ?st0 + 1)) = IDENTIFIER)"
    using assms(3) by (simp add: cur_def new_Parser_def)
  have ct: "cur ?st0 = t"
    by (simp add: cur_def new_Parser_def)
  have d: "parse_declaration ?st0 = Done None (cerr_line w (next_pos ?st0))"
    unfolding parse_declaration_wf [OF w0 c0] w_def using n by (simp only: if_False ct)
  have s: "cerr_line w (next_pos ?st0) = shifted t [w] ?st1"
    by (simp add: cerr_line_def next_pos_def shifted_def new_Parser_def)
  have "parse (t # u # rest) = parse_loop \<lparr>statements = [None]\<rparr> (shifted t [w] ?st1)"
    unfolding parse_def Parser_parse_def
    using c0 by (simp add: parse_loop_wf [OF w0] d s)
  also have "\<dots> = lift_program [None] t [w] (parse_loop \<lparr>statements = []\<rparr> ?st1)"
    using parse_loop_shifted [where program = "\<lparr>statements = []\<rparr>" and pre = "[None]"
        and t = t and q = "[w]", OF w1]
    by simp
  finally have e: "parse (t # u # rest) = lift_program [None] t [w] (parse (u # rest))"
    by (simp add: parse_def Parser_parse_def)
  from parse_returns [of "u # rest"] assms(1) obtain program st where
    r: "parse (u # rest) = Done program st" and m: "m_tokens st = u # rest"
    by auto
  have "shifted t [w] st
      = st\<lparr>m_tokens := t # u # rest, m_pos := m_pos st + 1, parse_cerr := w # parse_cerr st\<rparr>"
    using m by (simp add: shifted_def)
  with e r have "parse (t # u # rest)
       = Done (program\<lparr>statements := None # statements program\<rparr>)
           (st\<lparr>m_tokens := t # u # rest, m_pos := m_pos st + 1,
               parse_cerr := w # parse_cerr st\<rparr>)"
    by simp
  with r show ?thesis
    unfolding w_def by blast
qed

text \<open>
  The witness: a semicolon in front of the tokens of \<open>int main() { return 0; }\<close>.
\<close>

theorem C4_skipped_token_leaves_null_entry_witness:
  "t_type (last return_zero_tokens) = END_OF_FILE
   \<and> t_type semicolon_token \<noteq> END_OF_FILE
   \<and> t_type semicolon_token \<noteq> INT_KW
   \<and> parse (semicolon_token # return_zero_tokens)
     = Done \<lparr>statements = None # statements return_zero_ast\<rparr>
         \<lparr>m_tokens = semicolon_token # return_zero_tokens, m_pos = 10,
           parse_cerr = [''Parser Warning: Skipping unknown top-level token: ''
              @ to_string semicolon_token]\<rparr>"
proof -
  have h: "hd return_zero_tokens # tl return_zero_tokens = return_zero_tokens"
    by (simp add: return_zero_tokens_def)
  have a: "t_type (last (hd return_zero_tokens # tl return_zero_tokens)) = END_OF_FILE"
    unfolding h by (simp add: return_zero_tokens_def)
  have b: "t_type semicolon_token \<noteq> END_OF_FILE" and b': "t_type semicolon_token \<noteq> INT_KW"
    by (simp_all add: semicolon_token_def)
  from b' have c: "\<not> (t_type semicolon_token = INT_KW
      \<and> t_type (hd return_zero_tokens) = IDENTIFIER)"
    by simp
  from C4_skipped_token_leaves_null_entry [OF a b c]
  show ?thesis
    unfolding h using a b b' by (simp add: parse_return_zero h)
qed

section \<open>End-of-stream tokens\<close>

text \<open>
  \<open>unterminated_reported\<close>: some line on \<open>std::cerr\<close> starts with the text of the
  unterminated-string error. \<open>no_eof\<close>: no token of the list is an \<open>END_OF_FILE\<close> token.
\<close>

definition unterminated_reported :: "string list \<Rightarrow> bool" where
  "unterminated_reported lines =
     list_ex (\<lambda>l. take (length ''Lexer Error: Unterminated string'') l
                   = ''Lexer Error: Unterminated string'') lines"

definition no_eof :: "Token list \<Rightarrow> bool" where
  "no_eof tokens = list_all (\<lambda>t. t_type t \<noteq> END_OF_FILE) tokens"

lemma no_eof_simps [simp]:
  "no_eof []"
  "no_eof (t # ts) \<longleftrightarrow> t_type t \<noteq> END_OF_FILE \<and> no_eof ts"
  "no_eof (ts @ us) \<longleftrightarrow> no_eof ts \<and> no_eof us"
  by (simp_all add: no_eof_def)

lemma unterminated_reported_simps [simp]:
  "\<not> unterminated_reported []"
  "unterminated_reported (ls @ ms) \<longleftrightarrow> unterminated_reported ls \<or> unterminated_reported ms"
  by (simp_all add: unterminated_reported_def)

lemma skip_comment_cerr: "lex_cerr (skip_comment lx) = lex_cerr lx"
proof (induction lx rule: skip_comment.induct)
  case (1 lx)
  then show ?case
    by (subst skip_comment.simps) (simp add: advance_def)
qed

lemma skip_whitespace_and_comments_cerr:
  "lex_cerr (skip_whitespace_and_comments lx) = lex_cerr lx"
proof (induction lx rule: skip_whitespace_and_comments.induct)
  case (1 lx)
  then show ?case
    by (subst skip_whitespace_and_comments.simps)
       (simp add: advance_def Let_def skip_comment_cerr)
qed

lemma number_loop_cerr: "lex_cerr (number_loop lx) = lex_cerr lx"
proof (induction lx rule: number_loop.induct)
  case (1 lx)
  then show ?case
    by (subst number_loop.simps) (simp add: advance_def)
qed

lemma string_loop_cerr: "lex_cerr (string_loop lx) = lex_cerr lx"
proof (induction lx rule: string_loop.induct)
  case (1 lx)
  then show ?case
    by (subst string_loop.simps) (simp add: advance_def)
qed

lemma keywords_map_not_eof: "keywords_map val \<noteq> Some END_OF_FILE"
  by (simp add: keywords_map_def)

lemma handle_identifier_token:
  "t_type (fst (handle_identifier lx)) \<noteq> END_OF_FILE"
  "lex_cerr (snd (handle_identifier lx)) = lex_cerr lx"
  using keywords_map_not_eof [of "maximal_run (m_source lx) (m_current_pos lx)"]
  by (auto simp: handle_identifier_eq Let_def split: option.splits)

lemma handle_number_token:
  "t_type (fst (handle_number lx)) = NUMBER_LITERAL"
  "lex_cerr (snd (handle_number lx)) = lex_cerr lx"
  by (simp_all add: handle_number_def Let_def make_token_def number_loop_cerr)

text \<open>The two ways out of \<open>handle_string\<close>.\<close>

lemma handle_string_cases:
  "(t_type (fst (handle_string lx)) = STRING_LITERAL
      \<and> lex_cerr (snd (handle_string lx)) = lex_cerr lx)
   \<or> (fst (handle_string lx)
        = \<lparr>t_type = END_OF_FILE, t_value = ''ERROR'', t_line = m_line (snd (handle_string lx))\<rparr>
      \<and> is_at_end (snd (handle_string lx))
      \<and> unterminated_reported (lex_cerr (snd (handle_string lx))))"
  by (simp add: handle_string_def Let_def make_token_def string_loop_cerr advance_def
      is_at_end_def unterminated_reported_def)

text \<open>
  One run of the switch: either it pushes at most one token, which is not an
  \<open>END_OF_FILE\<close> token, and reports no unterminated string; or it pushes the sentinel of
  an unterminated string, reports it, and leaves the cursor at the end of the input.
\<close>

lemma tokenize_switch_cases:
  assumes "\<not> unterminated_reported (lex_cerr lx)"
  shows "(\<exists>add. fst (tokenize_switch c lx tokens) = tokens @ add \<and> no_eof add
            \<and> \<not> unterminated_reported (lex_cerr (snd (tokenize_switch c lx tokens))))
       \<or> (fst (tokenize_switch c lx tokens) = tokens @
              [\<lparr>t_type = END_OF_FILE, t_value = ''ERROR'',
                t_line = m_line (snd (tokenize_switch c lx tokens))\<rparr>]
            \<and> is_at_end (snd (tokenize_switch c lx tokens))
            \<and> unterminated_reported (lex_cerr (snd (tokenize_switch c lx tokens))))"
proof -
  let ?prev = "lx\<lparr>m_current_pos := m_current_pos lx - 1\<rparr>"
  have n: "t_type (fst (handle_number ?prev)) \<noteq> END_OF_FILE"
    "lex_cerr (snd (handle_number ?prev)) = lex_cerr lx"
    by (simp_all add: handle_number_token)
  have i: "t_type (fst (handle_identifier ?prev)) \<noteq> END_OF_FILE"
    "lex_cerr (snd (handle_identifier ?prev)) = lex_cerr lx"
    by (simp_all add: handle_identifier_token)
  show ?thesis
  proof (cases "c = CHR 0x22")
    case True
    then have e: "tokenize_switch c lx tokens
        = (tokens @ [fst (handle_string lx)], snd (handle_string lx))"
      by (simp add: tokenize_switch_def case_prod_beta)
    from handle_string_cases [of lx] show ?thesis
    proof
      assume "t_type (fst (handle_string lx)) = STRING_LITERAL
          \<and> lex_cerr (snd (handle_string lx)) = lex_cerr lx"
      with assms e show ?thesis by simp
    next
      assume "fst (handle_string lx)
          = \<lparr>t_type = END_OF_FILE, t_value = ''ERROR'', t_line = m_line (snd (handle_string lx))\<rparr>
        \<and> is_at_end (snd (handle_string lx))
        \<and> unterminated_reported (lex_cerr (snd (handle_string lx)))"
      with e show ?thesis by simp
    qed
  next
    case False
    have "\<exists>add. fst (tokenize_switch c lx tokens) = tokens @ add \<and> no_eof add
            \<and> \<not> unterminated_reported (lex_cerr (snd (tokenize_switch c lx tokens)))"
      using False assms n i
      by (simp add: tokenize_switch_def case_prod_beta make_token1_def make_token_def Let_def
          unterminated_reported_def)
    then show ?thesis by blast
  qed
qed

text \<open>
  The main loop: the tokens it adds hold no \<open>END_OF_FILE\<close> token, except that the last
  one is the sentinel when an unterminated string was reported.
\<close>

lemma tokenize_loop_eofs:
  "\<not> unterminated_reported (lex_cerr lx) \<Longrightarrow>
     (\<exists>add. fst (tokenize_loop lx tokens) = tokens @ add \<and> no_eof add
        \<and> \<not> unterminated_reported (lex_cerr (snd (tokenize_loop lx tokens))))
     \<or> (\<exists>add. fst (tokenize_loop lx tokens) = tokens @ add @
              [\<lparr>t_type = END_OF_FILE, t_value = ''ERROR'',
                t_line = m_line (snd (tokenize_loop lx tokens))\<rparr>]
           \<and> no_eof add
           \<and> unterminated_reported (lex_cerr (snd (tokenize_loop lx tokens))))"
  (is "_ \<Longrightarrow> ?shape lx tokens")
proof (induction lx tokens rule: tokenize_loop.induct)
  case (1 lx tokens)
  let ?lx1 = "skip_whitespace_and_comments lx"
  let ?c = "fst (advance ?lx1)" and ?lx2 = "snd (advance ?lx1)"
  let ?tokens' = "fst (tokenize_switch ?c ?lx2 tokens)"
  let ?lx3 = "snd (tokenize_switch ?c ?lx2 tokens)"
  have c2: "\<not> unterminated_reported (lex_cerr ?lx2)"
    using "1.prems" by (simp add: advance_def skip_whitespace_and_comments_cerr)
  show ?case
  proof (cases "is_at_end lx \<or> is_at_end ?lx1")
    case True
    then have "tokenize_loop lx tokens = (tokens, if is_at_end lx then lx else ?lx1)"
      by (subst tokenize_loop.simps) (auto simp: Let_def)
    with "1.prems" show ?thesis
      by (simp add: skip_whitespace_and_comments_cerr)
  next
    case False
    then have e: "tokenize_loop lx tokens = tokenize_loop ?lx3 ?tokens'"
      by (subst tokenize_loop.simps) (simp add: Let_def case_prod_beta)
    from tokenize_switch_cases [OF c2, of ?c tokens] show ?thesis
    proof
      assume "\<exists>add. ?tokens' = tokens @ add \<and> no_eof add
          \<and> \<not> unterminated_reported (lex_cerr ?lx3)"
      then obtain add0 where a: "?tokens' = tokens @ add0" "no_eof add0"
        and r: "\<not> unterminated_reported (lex_cerr ?lx3)"
        by blast
      from False have f: "\<not> is_at_end lx" "\<not> is_at_end ?lx1" by simp_all
      have "?shape ?lx3 ?tokens'"
        using "1.IH" [OF f(1) refl f(2) prod.collapse prod.collapse r] .
      then show ?thesis
        unfolding e a(1) using a(2) by (elim disjE exE) (auto simp: a(1))
    next
      assume s: "?tokens' = tokens @
            [\<lparr>t_type = END_OF_FILE, t_value = ''ERROR'', t_line = m_line ?lx3\<rparr>]
          \<and> is_at_end ?lx3 \<and> unterminated_reported (lex_cerr ?lx3)"
      then have "tokenize_loop ?lx3 ?tokens' = (?tokens', ?lx3)"
        by (subst tokenize_loop.simps) simp
      with s e show ?thesis by simp
    qed
  qed
qed

lemma no_eof_filter: "no_eof tokens \<Longrightarrow> filter (\<lambda>t. t_type t = END_OF_FILE) tokens = []"
  by (induction tokens) simp_all


subsection \<open>Unterminated string literals in the source\<close>

text \<open>
  \<open>spec_unterminated_string s\<close> is the specification's side of the comparison: it reads
  "the input contains an unterminated string literal" on the text alone, in the words
  of the specification's scan (its steps 1, 3 and 4), and uses no function of the
  lexer. Outside comments and literals, two slashes start a line comment, which is
  discarded up to the end of the line; a \<open>#\<close> followed by \<open>i\<close> starts an include
  directive, and the next six characters are discarded unconditionally; a double quote
  opens a string literal, which runs until the next double quote or the end of the
  input; every other character opens nothing. The literal is unterminated when it runs
  to the end of the input, that is, when no double quote follows its opening quote.
\<close>

function spec_unterminated_string :: "string \<Rightarrow> bool" where
  "spec_unterminated_string [] = False"
| "spec_unterminated_string (c # cs) =
     (if c = CHR ''/'' \<and> cs \<noteq> [] \<and> hd cs = CHR ''/'' then
        spec_unterminated_string (dropWhile (\<lambda>x. x \<noteq> CHR 0x0A) cs)
      else if c = CHR ''#'' \<and> cs \<noteq> [] \<and> hd cs = CHR ''i'' then
        spec_unterminated_string (drop 6 cs)
      else if c = CHR 0x22 then
        (if CHR 0x22 \<in> set cs
         then spec_unterminated_string (tl (dropWhile (\<lambda>x. x \<noteq> CHR 0x22) cs))
         else True)
      else spec_unterminated_string cs)"
  by pat_completeness auto
termination
proof (relation "measure length", goal_cases)
  case 1
  show ?case by simp
next
  case (2 c cs)
  have "length (dropWhile (\<lambda>x. x \<noteq> CHR 0x0A) cs) \<le> length cs"
    by (rule length_dropWhile_le)
  then show ?case by simp
next
  case (3 c cs)
  show ?case by simp
next
  case (4 c cs)
  have "length (dropWhile (\<lambda>x. x \<noteq> CHR 0x22) cs) \<le> length cs"
    by (rule length_dropWhile_le)
  then show ?case by simp
next
  case (5 c cs)
  show ?case by simp
qed

declare spec_unterminated_string.simps(2) [simp del]

lemma spec_unterminated_string_plain:
  assumes "c \<noteq> CHR ''#''" and "c \<noteq> CHR 0x22"
    and "c = CHR ''/'' \<Longrightarrow> cs = [] \<or> hd cs \<noteq> CHR ''/''"
  shows "spec_unterminated_string (c # cs) = spec_unterminated_string cs"
  using assms by (subst spec_unterminated_string.simps(2)) auto

lemma spec_unterminated_string_dropWhile:
  assumes "\<And>c. P c \<Longrightarrow> c \<noteq> CHR ''#'' \<and> c \<noteq> CHR 0x22 \<and> c \<noteq> CHR ''/''"
  shows "spec_unterminated_string (dropWhile P cs) = spec_unterminated_string cs"
proof (induction cs)
  case Nil
  show ?case by simp
next
  case (Cons c cs)
  show ?case
  proof (cases "P c")
    case True
    with assms [of c] have "spec_unterminated_string (c # cs) = spec_unterminated_string cs"
      by (intro spec_unterminated_string_plain) simp_all
    with True Cons show ?thesis by simp
  next
    case False
    then show ?thesis by simp
  qed
qed

text \<open>\<open>rest_of lx\<close>: the part of the source from the cursor on.\<close>

definition rest_of :: "Lexer \<Rightarrow> string" where
  "rest_of lx = drop (m_current_pos lx) (m_source lx)"

lemma rest_of_at_end: "is_at_end lx \<longleftrightarrow> rest_of lx = []"
  by (simp add: is_at_end_def rest_of_def)

lemma rest_of_cerr [simp]: "rest_of (lx\<lparr>lex_cerr := e\<rparr>) = rest_of lx"
  by (simp add: rest_of_def)

lemma rest_of_line [simp]: "rest_of (lx\<lparr>m_line := n\<rparr>) = rest_of lx"
  by (simp add: rest_of_def)

lemma rest_of_advance: "rest_of (snd (advance lx)) = tl (rest_of lx)"
  by (simp add: rest_of_def advance_def drop_Suc tl_drop)

lemma rest_of_jump:
  "rest_of (lx\<lparr>m_current_pos := m_current_pos lx + n\<rparr>) = drop n (rest_of lx)"
  by (simp add: rest_of_def add.commute)

lemma peek_rest_of: "peek lx = (if rest_of lx = [] then CHR 0x00 else hd (rest_of lx))"
  by (simp add: peek_def is_at_end_def rest_of_def char_at_def hd_drop_conv_nth)

lemma rest_of_peek: "\<not> is_at_end lx \<Longrightarrow> rest_of lx = peek lx # rest_of (snd (advance lx))"
  by (simp add: rest_of_at_end peek_rest_of rest_of_advance)

lemma comment_start_rest_of:
  "m_current_pos lx + 1 < length (m_source lx)
     \<and> char_at (m_source lx) (m_current_pos lx + 1) = CHR ''/''
   \<longleftrightarrow> rest_of (snd (advance lx)) \<noteq> [] \<and> hd (rest_of (snd (advance lx))) = CHR ''/''"
  by (auto simp: rest_of_def advance_def char_at_def hd_drop_conv_nth)


text \<open>What the loops of the lexer leave of the source.\<close>

lemma skip_comment_rest_of:
  "rest_of (skip_comment lx) = dropWhile (\<lambda>x. x \<noteq> CHR 0x0A) (rest_of lx)"
proof (induction lx rule: skip_comment.induct)
  case (1 lx)
  show ?case
  proof (cases "is_at_end lx")
    case True
    then have "skip_comment lx = lx"
      by (subst skip_comment.simps) simp
    with True show ?thesis by (simp add: rest_of_at_end)
  next
    case False
    note r = rest_of_peek [OF False]
    show ?thesis
    proof (cases "peek lx = CHR 0x0A")
      case True
      then have "skip_comment lx = lx"
        by (subst skip_comment.simps) simp
      with True r show ?thesis by simp
    next
      case nl: False
      with False have "skip_comment lx = skip_comment (snd (advance lx))"
        by (subst skip_comment.simps) simp
      moreover have "rest_of (skip_comment (snd (advance lx)))
          = dropWhile (\<lambda>x. x \<noteq> CHR 0x0A) (rest_of (snd (advance lx)))"
        using nl False by (intro "1.IH") simp
      ultimately show ?thesis using nl by (subst r) simp
    qed
  qed
qed

lemma number_loop_rest_of: "rest_of (number_loop lx) = dropWhile isdigit (rest_of lx)"
proof (induction lx rule: number_loop.induct)
  case (1 lx)
  show ?case
  proof (cases "isdigit (peek lx)")
    case True
    then have ne: "\<not> is_at_end lx" by (rule isdigit_not_at_end)
    note r = rest_of_peek [OF ne]
    from True have "number_loop lx = number_loop (snd (advance lx))"
      by (subst number_loop.simps) simp
    moreover have "rest_of (number_loop (snd (advance lx)))
        = dropWhile isdigit (rest_of (snd (advance lx)))"
      using True by (rule "1.IH")
    ultimately show ?thesis using True by (subst r) simp
  next
    case False
    then have e: "number_loop lx = lx"
      by (subst number_loop.simps) simp
    show ?thesis
    proof (cases "is_at_end lx")
      case True
      with e show ?thesis by (simp add: rest_of_at_end)
    next
      case ne: False
      from False e rest_of_peek [OF ne] show ?thesis by simp
    qed
  qed
qed

lemma identifier_loop_rest_of:
  "rest_of (identifier_loop lx) = dropWhile (\<lambda>c. isalnum c \<or> c = CHR ''_'') (rest_of lx)"
proof (induction lx rule: identifier_loop.induct)
  case (1 lx)
  show ?case
  proof (cases "isalnum (peek lx) \<or> peek lx = CHR ''_''")
    case True
    then have ne: "\<not> is_at_end lx" by (rule isalnum_not_at_end)
    note r = rest_of_peek [OF ne]
    from True have "identifier_loop lx = identifier_loop (snd (advance lx))"
      by (subst identifier_loop.simps) simp
    moreover have "rest_of (identifier_loop (snd (advance lx)))
        = dropWhile (\<lambda>c. isalnum c \<or> c = CHR ''_'') (rest_of (snd (advance lx)))"
      using True by (rule "1.IH")
    ultimately show ?thesis using True by (subst r) simp
  next
    case False
    then have e: "identifier_loop lx = lx"
      by (subst identifier_loop.simps) simp
    show ?thesis
    proof (cases "is_at_end lx")
      case True
      with e show ?thesis by (simp add: rest_of_at_end)
    next
      case ne: False
      from False e rest_of_peek [OF ne] show ?thesis by simp
    qed
  qed
qed

lemma string_loop_rest_of:
  "rest_of (string_loop lx) = dropWhile (\<lambda>x. x \<noteq> CHR 0x22) (rest_of lx)"
proof (induction lx rule: string_loop.induct)
  case (1 lx)
  show ?case
  proof (cases "is_at_end lx")
    case True
    then have "string_loop lx = lx"
      by (subst string_loop.simps) simp
    with True show ?thesis by (simp add: rest_of_at_end)
  next
    case False
    note r = rest_of_peek [OF False]
    show ?thesis
    proof (cases "peek lx = CHR 0x22")
      case True
      then have "string_loop lx = lx"
        by (subst string_loop.simps) simp
      with True r show ?thesis by simp
    next
      case q: False
      let ?next = "snd (advance (if peek lx = CHR 0x0A then lx\<lparr>m_line := m_line lx + 1\<rparr> else lx))"
      from q False have "string_loop lx = string_loop ?next"
        by (subst string_loop.simps) simp
      moreover have "rest_of (string_loop ?next) = dropWhile (\<lambda>x. x \<noteq> CHR 0x22) (rest_of ?next)"
        using q False by (intro "1.IH") simp
      moreover have "rest_of ?next = rest_of (snd (advance lx))"
        by (simp add: rest_of_advance)
      ultimately show ?thesis using q by (subst r) simp
    qed
  qed
qed

text \<open>
  The string loop runs to the end of the input exactly when no double quote is left
  of the source.
\<close>

lemma string_loop_at_end:
  "is_at_end (string_loop lx) \<longleftrightarrow> CHR 0x22 \<notin> set (rest_of lx)"
proof -
  have "dropWhile (\<lambda>x. x \<noteq> CHR 0x22) (rest_of lx) = [] \<longleftrightarrow> CHR 0x22 \<notin> set (rest_of lx)"
    by (auto simp: dropWhile_eq_Nil_conv)
  then show ?thesis
    by (simp add: rest_of_at_end string_loop_rest_of)
qed


text \<open>
  Blanks and comments: skipping them changes nothing for the question, and the cursor
  does not stop at the two slashes of a comment.
\<close>

lemma skip_whitespace_and_comments_scan:
  "spec_unterminated_string (rest_of (skip_whitespace_and_comments lx))
     = spec_unterminated_string (rest_of lx)
   \<and> \<not> (peek (skip_whitespace_and_comments lx) = CHR ''/''
          \<and> rest_of (snd (advance (skip_whitespace_and_comments lx))) \<noteq> []
          \<and> hd (rest_of (snd (advance (skip_whitespace_and_comments lx)))) = CHR ''/'')"
  (is "?Q lx")
proof (induction lx rule: skip_whitespace_and_comments.induct)
  case (1 lx)
  show ?case
  proof (cases "is_at_end lx")
    case True
    then have "skip_whitespace_and_comments lx = lx"
      by (subst skip_whitespace_and_comments.simps) simp
    with True show ?thesis by (simp add: peek_at_end)
  next
    case ne: False
    note r = rest_of_peek [OF ne]
    show ?thesis
    proof (cases "peek lx = CHR '' '' \<or> peek lx = CHR 0x0D \<or> peek lx = CHR 0x09")
      case True
      with ne have e: "skip_whitespace_and_comments lx
          = skip_whitespace_and_comments (snd (advance lx))"
        by (subst skip_whitespace_and_comments.simps) (simp add: Let_def)
      have ih: "?Q (snd (advance lx))"
        using ne refl True by (rule "1.IH"(1))
      have "spec_unterminated_string (rest_of lx)
          = spec_unterminated_string (rest_of (snd (advance lx)))"
        using True by (subst r) (rule spec_unterminated_string_plain, auto)
      with ih show ?thesis by (simp add: e)
    next
      case nb: False
      show ?thesis
      proof (cases "peek lx = CHR 0x0A")
        case True
        let ?n = "snd (advance (lx\<lparr>m_line := m_line lx + 1\<rparr>))"
        from ne nb True have e: "skip_whitespace_and_comments lx
            = skip_whitespace_and_comments ?n"
          by (subst skip_whitespace_and_comments.simps) (simp add: Let_def)
        have ih: "?Q ?n"
          using ne refl nb True by (rule "1.IH"(2))
        have n: "rest_of ?n = rest_of (snd (advance lx))"
          by (simp add: rest_of_advance)
        have "spec_unterminated_string (rest_of lx)
            = spec_unterminated_string (rest_of (snd (advance lx)))"
          using True by (subst r) (rule spec_unterminated_string_plain, auto)
        with ih n show ?thesis by (simp add: e)
      next
        case nn: False
        show ?thesis
        proof (cases "peek lx = CHR ''/''
            \<and> m_current_pos lx + 1 < length (m_source lx)
            \<and> char_at (m_source lx) (m_current_pos lx + 1) = CHR ''/''")
          case True
          then have sl: "peek lx = CHR ''/''"
            and two: "m_current_pos lx + 1 < length (m_source lx)
              \<and> char_at (m_source lx) (m_current_pos lx + 1) = CHR ''/''"
            by simp_all
          from ne nb nn sl two have e: "skip_whitespace_and_comments lx
              = skip_whitespace_and_comments (skip_comment lx)"
            by (subst skip_whitespace_and_comments.simps) (simp add: Let_def)
          have ih: "?Q (skip_comment lx)"
            using ne refl nb nn sl two by (rule "1.IH"(3))
          from two have cs: "rest_of (snd (advance lx)) \<noteq> []"
            "hd (rest_of (snd (advance lx))) = CHR ''/''"
            using comment_start_rest_of [of lx] by blast+
          have "rest_of (skip_comment lx)
              = dropWhile (\<lambda>x. x \<noteq> CHR 0x0A) (rest_of (snd (advance lx)))"
            using sl by (subst skip_comment_rest_of, subst r) simp
          moreover have "spec_unterminated_string (rest_of lx)
              = spec_unterminated_string
                  (dropWhile (\<lambda>x. x \<noteq> CHR 0x0A) (rest_of (snd (advance lx))))"
            using sl cs by (subst r, subst spec_unterminated_string.simps(2)) simp
          ultimately show ?thesis using ih by (simp add: e)
        next
          case False
          with ne nb nn have e: "skip_whitespace_and_comments lx = lx"
            by (subst skip_whitespace_and_comments.simps) (auto simp: Let_def)
          from False comment_start_rest_of [of lx] show ?thesis
            unfolding e by blast
        qed
      qed
    qed
  qed
qed

lemma skip_whitespace_and_comments_unterminated:
  "spec_unterminated_string (rest_of (skip_whitespace_and_comments lx))
     = spec_unterminated_string (rest_of lx)"
  using skip_whitespace_and_comments_scan [of lx] by simp

text \<open>The three handlers.\<close>

lemma handle_number_rest_of:
  "rest_of (snd (handle_number lx)) = dropWhile isdigit (rest_of lx)"
  by (simp add: handle_number_def Let_def number_loop_rest_of)

lemma handle_identifier_rest_of:
  "rest_of (snd (handle_identifier lx))
     = dropWhile (\<lambda>c. isalnum c \<or> c = CHR ''_'') (rest_of lx)"
  by (simp add: handle_identifier_def Let_def identifier_loop_rest_of split: option.splits)

lemma isdigit_plain: "isdigit c \<Longrightarrow> c \<noteq> CHR ''#'' \<and> c \<noteq> CHR 0x22 \<and> c \<noteq> CHR ''/''"
  by (auto simp: isdigit_def)

lemma isalnum_plain:
  "isalnum c \<or> c = CHR ''_'' \<Longrightarrow> c \<noteq> CHR ''#'' \<and> c \<noteq> CHR 0x22 \<and> c \<noteq> CHR ''/''"
  by (auto simp: isalnum_def isalpha_def isdigit_def)

lemma handle_number_unterminated:
  "spec_unterminated_string (rest_of (snd (handle_number lx)))
     = spec_unterminated_string (rest_of lx)"
  unfolding handle_number_rest_of
  by (rule spec_unterminated_string_dropWhile) (rule isdigit_plain)

lemma handle_identifier_unterminated:
  "spec_unterminated_string (rest_of (snd (handle_identifier lx)))
     = spec_unterminated_string (rest_of lx)"
  unfolding handle_identifier_rest_of
  by (rule spec_unterminated_string_dropWhile) (rule isalnum_plain)

text \<open>
  \<open>handle_string\<close>, entered after the opening quote: when no double quote is left of
  the source it reports the literal, returns the sentinel and stands at the end of the
  input; when one is left it reports nothing, returns a string literal and stands
  after the closing quote.
\<close>

lemma handle_string_unterminated:
  assumes "CHR 0x22 \<notin> set (rest_of lx)"
  shows "fst (handle_string lx)
        = \<lparr>t_type = END_OF_FILE, t_value = ''ERROR'', t_line = m_line (snd (handle_string lx))\<rparr>"
    and "is_at_end (snd (handle_string lx))"
    and "unterminated_reported (lex_cerr (snd (handle_string lx)))"
proof -
  from assms have e: "is_at_end (string_loop lx)"
    by (simp add: string_loop_at_end)
  then show "fst (handle_string lx)
        = \<lparr>t_type = END_OF_FILE, t_value = ''ERROR'', t_line = m_line (snd (handle_string lx))\<rparr>"
    by (simp add: handle_string_def Let_def make_token_def)
  from e show "is_at_end (snd (handle_string lx))"
    by (simp add: handle_string_def Let_def is_at_end_def)
  from e show "unterminated_reported (lex_cerr (snd (handle_string lx)))"
    by (simp add: handle_string_def Let_def unterminated_reported_def)
qed

lemma handle_string_terminated:
  assumes "CHR 0x22 \<in> set (rest_of lx)"
  shows "t_type (fst (handle_string lx)) = STRING_LITERAL"
    and "lex_cerr (snd (handle_string lx)) = lex_cerr lx"
    and "rest_of (snd (handle_string lx)) = tl (dropWhile (\<lambda>x. x \<noteq> CHR 0x22) (rest_of lx))"
proof -
  from assms have e: "\<not> is_at_end (string_loop lx)"
    by (simp add: string_loop_at_end)
  then show "t_type (fst (handle_string lx)) = STRING_LITERAL"
    by (simp add: handle_string_def Let_def make_token_def)
  from e show "lex_cerr (snd (handle_string lx)) = lex_cerr lx"
    by (simp add: handle_string_def Let_def advance_def string_loop_cerr)
  from e show "rest_of (snd (handle_string lx))
      = tl (dropWhile (\<lambda>x. x \<noteq> CHR 0x22) (rest_of lx))"
    by (simp add: handle_string_def Let_def rest_of_advance string_loop_rest_of)
qed


text \<open>
  One run of the switch, entered at a character that does not start a comment: either
  nothing is reported and the question is the same for what is left of the source as
  it was before; or the character is the opening quote of an unterminated literal,
  which is reported, and the cursor is at the end of the input.
\<close>

lemma tokenize_switch_unterminated:
  assumes ne: "\<not> is_at_end lx1"
    and nr: "\<not> unterminated_reported (lex_cerr lx1)"
    and nc: "\<not> (peek lx1 = CHR ''/'' \<and> rest_of (snd (advance lx1)) \<noteq> []
                \<and> hd (rest_of (snd (advance lx1))) = CHR ''/'')"
    and r_def: "r = tokenize_switch (fst (advance lx1)) (snd (advance lx1)) tokens"
  shows "(\<not> unterminated_reported (lex_cerr (snd r))
            \<and> spec_unterminated_string (rest_of (snd r)) = spec_unterminated_string (rest_of lx1))
       \<or> (unterminated_reported (lex_cerr (snd r)) \<and> is_at_end (snd r)
            \<and> spec_unterminated_string (rest_of lx1))"
proof -
  let ?c = "peek lx1" and ?lx2 = "snd (advance lx1)"
  have c: "fst (advance lx1) = ?c"
    using ne by (simp add: advance_def peek_def)
  have prev: "?lx2\<lparr>m_current_pos := m_current_pos ?lx2 - 1\<rparr> = lx1"
    by (simp add: advance_def)
  have cerr2: "lex_cerr ?lx2 = lex_cerr lx1"
    by (simp add: advance_def)
  note R = rest_of_peek [OF ne]
  show ?thesis
  proof (cases "?c = CHR 0x22")
    case True
    then have e: "r = (tokens @ [fst (handle_string ?lx2)], snd (handle_string ?lx2))"
      by (simp add: r_def c tokenize_switch_def case_prod_beta)
    show ?thesis
    proof (cases "CHR 0x22 \<in> set (rest_of ?lx2)")
      case q: True
      note h = handle_string_terminated [OF q]
      have "spec_unterminated_string (rest_of lx1)
          = spec_unterminated_string (tl (dropWhile (\<lambda>x. x \<noteq> CHR 0x22) (rest_of ?lx2)))"
        using True q by (subst R, subst spec_unterminated_string.simps(2)) simp
      with h nr cerr2 show ?thesis by (simp add: e)
    next
      case q: False
      note h = handle_string_unterminated [OF q]
      have "spec_unterminated_string (rest_of lx1)"
        using True q by (subst R, subst spec_unterminated_string.simps(2)) simp
      with h show ?thesis by (simp add: e)
    qed
  next
    case nq: False
    show ?thesis
    proof (cases "?c = CHR ''#''")
      case True
      show ?thesis
      proof (cases "peek ?lx2 = CHR ''i''")
        case i: True
        then have e: "snd r = ?lx2\<lparr>m_current_pos := m_current_pos ?lx2 + 6\<rparr>"
          by (simp add: r_def c True tokenize_switch_def Let_def)
        from i have "rest_of ?lx2 \<noteq> [] \<and> hd (rest_of ?lx2) = CHR ''i''"
          by (simp add: peek_rest_of split: if_splits)
        then have "spec_unterminated_string (rest_of lx1)
            = spec_unterminated_string (drop 6 (rest_of ?lx2))"
          using True by (subst R, subst spec_unterminated_string.simps(2)) simp
        moreover have "rest_of (snd r) = drop 6 (rest_of ?lx2)"
          unfolding e by (rule rest_of_jump)
        moreover have "lex_cerr (snd r) = lex_cerr lx1"
          unfolding e by (simp add: cerr2)
        ultimately show ?thesis using nr by simp
      next
        case i: False
        then have e: "snd r = ?lx2"
          by (simp add: r_def c True tokenize_switch_def)
        from i have "\<not> (rest_of ?lx2 \<noteq> [] \<and> hd (rest_of ?lx2) = CHR ''i'')"
          by (auto simp: peek_rest_of)
        then have "spec_unterminated_string (rest_of lx1) = spec_unterminated_string (rest_of ?lx2)"
          using True by (subst R, subst spec_unterminated_string.simps(2)) auto
        with nr cerr2 show ?thesis by (simp add: e)
      qed
    next
      case nh: False
      have plain: "spec_unterminated_string (rest_of lx1) = spec_unterminated_string (rest_of ?lx2)"
      proof (subst R, rule spec_unterminated_string_plain)
        show "?c \<noteq> CHR ''#''" by (rule nh)
        show "?c \<noteq> CHR 0x22" by (rule nq)
        show "rest_of ?lx2 = [] \<or> hd (rest_of ?lx2) \<noteq> CHR ''/''" if "?c = CHR ''/''"
          using that nc by blast
      qed
      have n: "lex_cerr (snd (handle_number lx1)) = lex_cerr lx1"
        "spec_unterminated_string (rest_of (snd (handle_number lx1)))
           = spec_unterminated_string (rest_of ?lx2)"
        by (simp_all add: handle_number_token handle_number_unterminated plain)
      have i: "lex_cerr (snd (handle_identifier lx1)) = lex_cerr lx1"
        "spec_unterminated_string (rest_of (snd (handle_identifier lx1)))
           = spec_unterminated_string (rest_of ?lx2)"
        by (simp_all add: handle_identifier_token handle_identifier_unterminated plain)
      have "\<not> unterminated_reported (lex_cerr (snd r))
          \<and> spec_unterminated_string (rest_of (snd r)) = spec_unterminated_string (rest_of ?lx2)"
        unfolding r_def c tokenize_switch_def prev
        using nq nh nr n i cerr2
        by (simp add: case_prod_beta Let_def unterminated_reported_def)
      with plain show ?thesis by simp
    qed
  qed
qed

text \<open>
  The main loop reports an unterminated string exactly when the scan of the text finds
  one in what is left of the source.
\<close>

lemma tokenize_loop_unterminated:
  "\<not> unterminated_reported (lex_cerr lx) \<Longrightarrow>
     unterminated_reported (lex_cerr (snd (tokenize_loop lx tokens)))
       = spec_unterminated_string (rest_of lx)"
proof (induction lx tokens rule: tokenize_loop.induct)
  case (1 lx tokens)
  let ?lx1 = "skip_whitespace_and_comments lx"
  let ?c = "fst (advance ?lx1)" and ?lx2 = "snd (advance ?lx1)"
  let ?tokens' = "fst (tokenize_switch ?c ?lx2 tokens)"
  let ?lx3 = "snd (tokenize_switch ?c ?lx2 tokens)"
  have s: "spec_unterminated_string (rest_of ?lx1) = spec_unterminated_string (rest_of lx)"
    by (rule skip_whitespace_and_comments_unterminated)
  have nc: "\<not> (peek ?lx1 = CHR ''/'' \<and> rest_of ?lx2 \<noteq> [] \<and> hd (rest_of ?lx2) = CHR ''/'')"
    using skip_whitespace_and_comments_scan [of lx] by blast
  have nr1: "\<not> unterminated_reported (lex_cerr ?lx1)"
    using "1.prems" by (simp add: skip_whitespace_and_comments_cerr)
  show ?case
  proof (cases "is_at_end lx \<or> is_at_end ?lx1")
    case True
    then have "tokenize_loop lx tokens = (tokens, if is_at_end lx then lx else ?lx1)"
      by (subst tokenize_loop.simps) (auto simp: Let_def)
    moreover from True s have "\<not> spec_unterminated_string (rest_of lx)"
      by (auto simp: rest_of_at_end)
    ultimately show ?thesis
      using "1.prems" nr1 by simp
  next
    case False
    then have f: "\<not> is_at_end lx" "\<not> is_at_end ?lx1" by simp_all
    from False have e: "tokenize_loop lx tokens = tokenize_loop ?lx3 ?tokens'"
      by (subst tokenize_loop.simps) (simp add: Let_def case_prod_beta)
    from tokenize_switch_unterminated [OF f(2) nr1 nc refl, of tokens]
    show ?thesis
    proof
      assume a: "\<not> unterminated_reported (lex_cerr ?lx3)
          \<and> spec_unterminated_string (rest_of ?lx3) = spec_unterminated_string (rest_of ?lx1)"
      then have r: "\<not> unterminated_reported (lex_cerr ?lx3)" by simp
      have "unterminated_reported (lex_cerr (snd (tokenize_loop ?lx3 ?tokens')))
          = spec_unterminated_string (rest_of ?lx3)"
        using "1.IH" [OF f(1) refl f(2) prod.collapse prod.collapse r] .
      with a s show ?thesis by (simp add: e)
    next
      assume b: "unterminated_reported (lex_cerr ?lx3) \<and> is_at_end ?lx3
          \<and> spec_unterminated_string (rest_of ?lx1)"
      then have "tokenize_loop ?lx3 ?tokens' = (?tokens', ?lx3)"
        by (subst tokenize_loop.simps) simp
      with b s show ?thesis by (simp add: e)
    qed
  qed
qed

lemma rest_of_new_Lexer: "rest_of (new_Lexer source) = source"
  by (simp add: rest_of_def new_Lexer_def)

text \<open>
  Claim C3, as stated, fails: on the source \<open>"abc\<close>, an opening quote that is never
  closed, \<open>handle_string\<close> returns its sentinel \<open>END_OF_FILE\<close> token with the text \<open>ERROR\<close>,
  the loop ends, and the final \<open>END_OF_FILE\<close> token is pushed after it. The kind occurs
  twice.
\<close>

theorem C3_unterminated_string_counterexample:
  "tokenize (CHR 0x22 # ''abc'')
     = [\<lparr>t_type = END_OF_FILE, t_value = ''ERROR'', t_line = 1\<rparr>,
        \<lparr>t_type = END_OF_FILE, t_value = [], t_line = 1\<rparr>]
   \<and> length (filter (\<lambda>t. t_type t = END_OF_FILE) (tokenize (CHR 0x22 # ''abc''))) = 2"
  by code_simp

text \<open>
  Claim C3, amended. For every source, the token vector ends with an \<open>END_OF_FILE\<close>
  token with empty text, and the lexer reports an unterminated string exactly when the
  source contains an unterminated string literal (\<open>spec_unterminated_string\<close>). When the
  source contains none, the final token is the only \<open>END_OF_FILE\<close> token. When it
  contains one, the sentinel \<open>END_OF_FILE\<close> token with the text \<open>ERROR\<close> stands directly
  before the final one, in place of the literal, and these two are the only
  \<open>END_OF_FILE\<close> tokens; both carry the line the lexer ended on.
\<close>

theorem C3_end_of_stream_tokens:
  "\<exists>pre lx. Lexer_tokenize (new_Lexer source) = (tokenize source, lx) \<and> no_eof pre
     \<and> unterminated_reported (lex_cerr lx) = spec_unterminated_string source
     \<and> tokenize source
         = pre
           @ (if spec_unterminated_string source
              then [\<lparr>t_type = END_OF_FILE, t_value = ''ERROR'', t_line = m_line lx\<rparr>] else [])
           @ [\<lparr>t_type = END_OF_FILE, t_value = [], t_line = m_line lx\<rparr>]
     \<and> length (filter (\<lambda>t. t_type t = END_OF_FILE) (tokenize source))
         = (if spec_unterminated_string source then 2 else 1)"
proof -
  let ?r = "tokenize_loop (new_Lexer source) []"
  have t: "Lexer_tokenize (new_Lexer source)
      = (fst ?r @ [\<lparr>t_type = END_OF_FILE, t_value = [], t_line = m_line (snd ?r)\<rparr>], snd ?r)"
    by (simp add: Lexer_tokenize_def case_prod_beta make_token_def)
  then have k: "tokenize source
      = fst ?r @ [\<lparr>t_type = END_OF_FILE, t_value = [], t_line = m_line (snd ?r)\<rparr>]"
    by (simp add: tokenize_def)
  have n: "\<not> unterminated_reported (lex_cerr (new_Lexer source))"
    by (simp add: new_Lexer_def)
  have u: "unterminated_reported (lex_cerr (snd ?r)) = spec_unterminated_string source"
    using tokenize_loop_unterminated [OF n, of "[]"] by (simp add: rest_of_new_Lexer)
  from tokenize_loop_eofs [OF n, of "[]"]
  show ?thesis
  proof
    assume "\<exists>add. fst ?r = [] @ add \<and> no_eof add \<and> \<not> unterminated_reported (lex_cerr (snd ?r))"
    then obtain add where "fst ?r = add" "no_eof add"
      "\<not> unterminated_reported (lex_cerr (snd ?r))"
      by auto
    with t k u show ?thesis
      by (intro exI [of _ add] exI [of _ "snd ?r"]) (simp add: no_eof_filter)
  next
    assume "\<exists>add. fst ?r = [] @ add @
          [\<lparr>t_type = END_OF_FILE, t_value = ''ERROR'', t_line = m_line (snd ?r)\<rparr>]
        \<and> no_eof add \<and> unterminated_reported (lex_cerr (snd ?r))"
    then obtain add where "fst ?r = add @
          [\<lparr>t_type = END_OF_FILE, t_value = ''ERROR'', t_line = m_line (snd ?r)\<rparr>]"
      "no_eof add" "unterminated_reported (lex_cerr (snd ?r))"
      by auto
    with t k u show ?thesis
      by (intro exI [of _ add] exI [of _ "snd ?r"]) (simp add: no_eof_filter)
  qed
qed

text \<open>
  At concrete sources: \<open>int x\<close> contains no unterminated literal, nothing is reported and
  there is one \<open>END_OF_FILE\<close> token; the unclosed \<open>"abc\<close> contains one, it is reported
  and there are two. A lone double quote is an unterminated literal as well; a double
  quote inside a comment is none, and neither is a literal that is closed.
\<close>

theorem C3_end_of_stream_tokens_witness:
  "spec_unterminated_string (CHR 0x22 # ''abc'')
   \<and> spec_unterminated_string [CHR 0x22]
   \<and> \<not> spec_unterminated_string ''int x''
   \<and> \<not> spec_unterminated_string (CHR ''/'' # CHR ''/'' # CHR 0x22 # ''abc'')
   \<and> \<not> spec_unterminated_string (CHR 0x22 # CHR ''a'' # CHR 0x22 # ''; x'')
   \<and> tokenize ''int x''
       = [\<lparr>t_type = INT_KW, t_value = ''int'', t_line = 1\<rparr>,
          \<lparr>t_type = IDENTIFIER, t_value = ''x'', t_line = 1\<rparr>,
          \<lparr>t_type = END_OF_FILE, t_value = [], t_line = 1\<rparr>]
   \<and> tokenize [CHR 0x22]
       = [\<lparr>t_type = END_OF_FILE, t_value = ''ERROR'', t_line = 1\<rparr>,
          \<lparr>t_type = END_OF_FILE, t_value = [], t_line = 1\<rparr>]
   \<and> tokenize (CHR ''/'' # CHR ''/'' # CHR 0x22 # ''abc'')
       = [\<lparr>t_type = END_OF_FILE, t_value = [], t_line = 1\<rparr>]
   \<and> length (filter (\<lambda>t. t_type t = END_OF_FILE) (tokenize ''int x'')) = 1
   \<and> length (filter (\<lambda>t. t_type t = END_OF_FILE) (tokenize (CHR 0x22 # ''abc''))) = 2
   \<and> unterminated_reported (lex_cerr (snd (Lexer_tokenize (new_Lexer (CHR 0x22 # ''abc'')))))
   \<and> \<not> unterminated_reported (lex_cerr (snd (Lexer_tokenize (new_Lexer ''int x''))))"
proof -
  have a: "spec_unterminated_string (CHR 0x22 # ''abc'')"
    by code_simp
  have b: "spec_unterminated_string [CHR 0x22]"
    by code_simp
  have c: "\<not> spec_unterminated_string ''int x''"
    by code_simp
  have d: "\<not> spec_unterminated_string (CHR ''/'' # CHR ''/'' # CHR 0x22 # ''abc'')"
    by code_simp
  have e: "\<not> spec_unterminated_string (CHR 0x22 # CHR ''a'' # CHR 0x22 # ''; x'')"
    by code_simp
  have f: "tokenize ''int x''
       = [\<lparr>t_type = INT_KW, t_value = ''int'', t_line = 1\<rparr>,
          \<lparr>t_type = IDENTIFIER, t_value = ''x'', t_line = 1\<rparr>,
          \<lparr>t_type = END_OF_FILE, t_value = [], t_line = 1\<rparr>]"
    by code_simp
  have g: "tokenize [CHR 0x22]
       = [\<lparr>t_type = END_OF_FILE, t_value = ''ERROR'', t_line = 1\<rparr>,
          \<lparr>t_type = END_OF_FILE, t_value = [], t_line = 1\<rparr>]"
    by code_simp
  have h: "tokenize (CHR ''/'' # CHR ''/'' # CHR 0x22 # ''abc'')
       = [\<lparr>t_type = END_OF_FILE, t_value = [], t_line = 1\<rparr>]"
    by code_simp
  obtain pre lx where p: "Lexer_tokenize (new_Lexer ''int x'') = (tokenize ''int x'', lx)"
      "unterminated_reported (lex_cerr lx) = spec_unterminated_string ''int x''"
      "length (filter (\<lambda>t. t_type t = END_OF_FILE) (tokenize ''int x''))
         = (if spec_unterminated_string ''int x'' then 2 else 1)"
    using C3_end_of_stream_tokens [of "''int x''"] by blast
  obtain pre' lx' where q:
      "Lexer_tokenize (new_Lexer (CHR 0x22 # ''abc'')) = (tokenize (CHR 0x22 # ''abc''), lx')"
      "unterminated_reported (lex_cerr lx') = spec_unterminated_string (CHR 0x22 # ''abc'')"
      "length (filter (\<lambda>t. t_type t = END_OF_FILE) (tokenize (CHR 0x22 # ''abc'')))
         = (if spec_unterminated_string (CHR 0x22 # ''abc'') then 2 else 1)"
    using C3_end_of_stream_tokens [of "CHR 0x22 # ''abc''"] by blast
  have i: "length (filter (\<lambda>t. t_type t = END_OF_FILE) (tokenize ''int x'')) = 1"
    using p(3) c by (simp only: if_False)
  have j: "length (filter (\<lambda>t. t_type t = END_OF_FILE) (tokenize (CHR 0x22 # ''abc''))) = 2"
    using q(3) a by (simp only: if_True)
  have k: "unterminated_reported (lex_cerr (snd (Lexer_tokenize (new_Lexer (CHR 0x22 # ''abc'')))))"
    using q(1,2) a by simp
  have l: "\<not> unterminated_reported (lex_cerr (snd (Lexer_tokenize (new_Lexer ''int x''))))"
    using p(1,2) c by simp
  from a b c d e f g h i j k l show ?thesis
    by (intro conjI)
qed

section \<open>Line numbers\<close>

text \<open>
  To speak of the place of a token, \<open>spans_loop\<close> runs the main loop of \<open>tokenize\<close> once
  more and keeps, with every token, the cursor at which its round of the loop began to
  read it (after blanks and comments) and the cursor at which it was pushed:
  \<open>(token, start, end)\<close>. The switch is the lexer's own, run on an empty vector.
  \<open>tokenize_spans\<close> adds the final \<open>END_OF_FILE\<close> token at the last cursor.
\<close>

function spans_loop :: "Lexer \<Rightarrow> (Token \<times> nat \<times> nat) list
    \<Rightarrow> (Token \<times> nat \<times> nat) list \<times> Lexer" where
  "spans_loop lx spans =
     (if is_at_end lx then (spans, lx)
      else let lx1 = skip_whitespace_and_comments lx in
        if is_at_end lx1 then (spans, lx1)
        else (case advance lx1 of (c, lx2) \<Rightarrow>
                (case tokenize_switch c lx2 [] of (new, lx3) \<Rightarrow>
                   spans_loop lx3
                     (spans @ map (\<lambda>t. (t, m_current_pos lx1, m_current_pos lx3)) new))))"
  by pat_completeness auto
termination
proof (relation "measure (\<lambda>(lx, spans). length (m_source lx) - m_current_pos lx)", goal_cases)
  case 1
  show ?case by simp
next
  case (2 lx spans lx1 c lx2 new lx3)
  have c: "c = fst (advance lx1)" and l: "lx2 = snd (advance lx1)"
    using 2(4) by (metis fst_conv, metis snd_conv)
  have l3: "lx3 = snd (tokenize_switch c lx2 [])"
    using 2(5) by (metis snd_conv)
  have "m_current_pos lx1 < m_current_pos lx3"
    unfolding l3 c l using 2(3) by (rule tokenize_switch_progress)
  moreover have "m_current_pos lx \<le> m_current_pos lx1"
    unfolding 2(2) by (rule skip_whitespace_and_comments_pos)
  moreover have "m_source lx3 = m_source lx"
    unfolding l3 l 2(2)
    by (simp add: tokenize_switch_source advance_def skip_whitespace_and_comments_source)
  moreover have "m_current_pos lx < length (m_source lx)"
    using 2(1) by (simp add: is_at_end_def)
  ultimately show ?case by simp
qed

declare spans_loop.simps [simp del]

definition tokenize_spans :: "string \<Rightarrow> (Token \<times> nat \<times> nat) list" where
  "tokenize_spans source =
     (case spans_loop (new_Lexer source) [] of (spans, lx) \<Rightarrow>
        spans @ [(make_token END_OF_FILE [] lx, m_current_pos lx, m_current_pos lx)])"

text \<open>The tokens of the spans are the tokens of \<open>tokenize\<close>.\<close>

lemma tokenize_switch_append:
  "tokenize_switch c lx tokens
     = (tokens @ fst (tokenize_switch c lx []), snd (tokenize_switch c lx []))"
  by (simp add: tokenize_switch_def case_prod_beta Let_def)

lemma spans_loop_tokens:
  "tokenize_loop lx (map fst spans)
     = (map fst (fst (spans_loop lx spans)), snd (spans_loop lx spans))"
proof (induction lx spans rule: spans_loop.induct)
  case (1 lx spans)
  let ?lx1 = "skip_whitespace_and_comments lx"
  let ?c = "fst (advance ?lx1)" and ?lx2 = "snd (advance ?lx1)"
  let ?new = "fst (tokenize_switch ?c ?lx2 [])"
  let ?lx3 = "snd (tokenize_switch ?c ?lx2 [])"
  let ?spans' = "spans @ map (\<lambda>t. (t, m_current_pos ?lx1, m_current_pos ?lx3)) ?new"
  show ?case
  proof (cases "is_at_end lx \<or> is_at_end ?lx1")
    case True
    then show ?thesis
      by (subst tokenize_loop.simps, subst (1 2) spans_loop.simps) (auto simp: Let_def)
  next
    case False
    then have f: "\<not> is_at_end lx" "\<not> is_at_end ?lx1" by simp_all
    have m: "map fst ?spans' = map fst spans @ ?new"
      by (simp add: comp_def)
    have "tokenize_loop lx (map fst spans) = tokenize_loop ?lx3 (map fst spans @ ?new)"
      using f tokenize_switch_append [of ?c ?lx2 "map fst spans"]
      by (subst tokenize_loop.simps) (simp add: Let_def case_prod_beta)
    also have "\<dots> = tokenize_loop ?lx3 (map fst ?spans')"
      by (simp only: m)
    also have "\<dots> = (map fst (fst (spans_loop ?lx3 ?spans')), snd (spans_loop ?lx3 ?spans'))"
      using "1.IH" [OF f(1) refl f(2) prod.collapse prod.collapse] .
    also have "spans_loop ?lx3 ?spans' = spans_loop lx spans"
      using f by (subst (2) spans_loop.simps) (simp add: Let_def case_prod_beta)
    finally show ?thesis .
  qed
qed

lemma tokenize_spans_tokens: "map fst (tokenize_spans source) = tokenize source"
  using spans_loop_tokens [of "new_Lexer source" "[]"]
  by (simp add: tokenize_spans_def tokenize_def Lexer_tokenize_def case_prod_beta)

text \<open>
  \<open>newlines_before s p\<close>: the number of newline characters among the first \<open>p\<close>
  characters of \<open>s\<close>. \<open>line_ok\<close>: the line counter of the lexer is one more than the
  number of newlines before its cursor.
\<close>

definition newlines_before :: "string \<Rightarrow> nat \<Rightarrow> int" where
  "newlines_before s p = int (length (filter (\<lambda>c. c = CHR 0x0A) (take p s)))"

definition line_ok :: "Lexer \<Rightarrow> bool" where
  "line_ok lx \<longleftrightarrow> m_line lx = 1 + newlines_before (m_source lx) (m_current_pos lx)"

text \<open>
  \<open>span_jump_clean s (t, start, end)\<close>: when \<open>t\<close> is an \<open>INCLUDE\<close> token, read from the \<open>#\<close>
  at \<open>start\<close>, none of the six characters after the \<open>#\<close>, the ones \<open>m_current_pos += 6\<close>
  jumped over, is a newline. \<open>include_jumps_clean\<close>: this holds of every token of the
  source; it speaks of the places where the lexer takes the jump and of no other \<open>#\<close>.
\<close>

definition span_jump_clean :: "string \<Rightarrow> Token \<times> nat \<times> nat \<Rightarrow> bool" where
  "span_jump_clean s x =
     (case x of (t, start, end) \<Rightarrow>
        if t_type t = INCLUDE
        then list_all (\<lambda>k. char_at s (start + 1 + k) \<noteq> CHR 0x0A) [0..<6]
        else True)"

definition include_jumps_clean :: "string \<Rightarrow> bool" where
  "include_jumps_clean source = list_all (span_jump_clean source) (tokenize_spans source)"

lemma newlines_before_Suc:
  "newlines_before s (Suc p) = newlines_before s p + (if char_at s p = CHR 0x0A then 1 else 0)"
proof (cases "p < length s")
  case True
  then show ?thesis
    by (simp add: newlines_before_def take_Suc_conv_app_nth char_at_def)
next
  case False
  then show ?thesis
    by (simp add: newlines_before_def char_at_def)
qed

lemma newlines_before_skip:
  "(\<And>k. k < n \<Longrightarrow> char_at s (p + k) \<noteq> CHR 0x0A)
     \<Longrightarrow> newlines_before s (p + n) = newlines_before s p"
proof (induction n)
  case 0
  show ?case by simp
next
  case (Suc n)
  have "newlines_before s (p + n) = newlines_before s p"
    using Suc.prems by (intro Suc.IH) simp
  moreover have "char_at s (p + n) \<noteq> CHR 0x0A"
    using Suc.prems [of n] by simp
  ultimately show ?case
    using newlines_before_Suc [of s "p + n"] by simp
qed

lemma peek_char_at: "\<not> is_at_end lx \<Longrightarrow> peek lx = char_at (m_source lx) (m_current_pos lx)"
  by (simp add: peek_def)

text \<open>Moving over a character that is not a newline keeps \<open>line_ok\<close>.\<close>

lemma line_ok_advance:
  assumes "line_ok lx" and "char_at (m_source lx) (m_current_pos lx) \<noteq> CHR 0x0A"
  shows "line_ok (snd (advance lx))"
  using assms newlines_before_Suc [of "m_source lx" "m_current_pos lx"]
  by (simp add: line_ok_def advance_def)

lemma line_ok_advance_newline:
  assumes "line_ok lx" and "char_at (m_source lx) (m_current_pos lx) = CHR 0x0A"
  shows "line_ok (snd (advance (lx\<lparr>m_line := m_line lx + 1\<rparr>)))"
  using assms newlines_before_Suc [of "m_source lx" "m_current_pos lx"]
  by (simp add: line_ok_def advance_def)

lemma skip_comment_line_ok: "line_ok lx \<Longrightarrow> line_ok (skip_comment lx)"
proof (induction lx rule: skip_comment.induct)
  case (1 lx)
  show ?case
  proof (cases "peek lx \<noteq> CHR 0x0A \<and> \<not> is_at_end lx")
    case True
    then have "char_at (m_source lx) (m_current_pos lx) \<noteq> CHR 0x0A"
      using peek_char_at [of lx] by simp
    with "1.prems" have "line_ok (snd (advance lx))"
      by (rule line_ok_advance)
    with True "1.IH" show ?thesis
      by (subst skip_comment.simps) simp
  next
    case False
    with "1.prems" show ?thesis
      by (subst skip_comment.simps) auto
  qed
qed

text \<open>
  The cases of one round of \<open>skip_whitespace_and_comments\<close>, as an induction rule: the
  end of the input, a blank, a newline, a comment, and any other character.
\<close>

lemma skip_whitespace_and_comments_induct
  [case_names End Blank Newline Comment Stop]:
  assumes "\<And>lx. is_at_end lx \<Longrightarrow> skip_whitespace_and_comments lx = lx \<Longrightarrow> P lx"
    and "\<And>lx. \<not> is_at_end lx \<Longrightarrow> peek lx \<noteq> CHR 0x0A
          \<Longrightarrow> skip_whitespace_and_comments lx = skip_whitespace_and_comments (snd (advance lx))
          \<Longrightarrow> P (snd (advance lx)) \<Longrightarrow> P lx"
    and "\<And>lx. \<not> is_at_end lx \<Longrightarrow> peek lx = CHR 0x0A
          \<Longrightarrow> skip_whitespace_and_comments lx
              = skip_whitespace_and_comments (snd (advance (lx\<lparr>m_line := m_line lx + 1\<rparr>)))
          \<Longrightarrow> P (snd (advance (lx\<lparr>m_line := m_line lx + 1\<rparr>))) \<Longrightarrow> P lx"
    and "\<And>lx. \<not> is_at_end lx
          \<Longrightarrow> skip_whitespace_and_comments lx = skip_whitespace_and_comments (skip_comment lx)
          \<Longrightarrow> P (skip_comment lx) \<Longrightarrow> P lx"
    and "\<And>lx. \<not> is_at_end lx \<Longrightarrow> peek lx \<noteq> CHR 0x0A
          \<Longrightarrow> skip_whitespace_and_comments lx = lx \<Longrightarrow> P lx"
  shows "P lx"
proof (induction lx rule: skip_whitespace_and_comments.induct)
  case (1 lx)
  let ?blank = "peek lx = CHR '' '' \<or> peek lx = CHR 0x0D \<or> peek lx = CHR 0x09"
  let ?comment = "m_current_pos lx + 1 < length (m_source lx)
      \<and> char_at (m_source lx) (m_current_pos lx + 1) = CHR ''/''"
  show ?case
  proof (cases "is_at_end lx")
    case True
    then have "skip_whitespace_and_comments lx = lx"
      by (subst skip_whitespace_and_comments.simps) simp
    with True show ?thesis by (rule assms(1))
  next
    case ne: False
    show ?thesis
    proof (cases ?blank)
      case True
      with ne have eq: "skip_whitespace_and_comments lx
          = skip_whitespace_and_comments (snd (advance lx))"
        by (subst skip_whitespace_and_comments.simps) (simp add: Let_def)
      from True have nl: "peek lx \<noteq> CHR 0x0A" by auto
      have ih: "P (snd (advance lx))"
        using ne refl True by (rule "1.IH"(1))
      show ?thesis by (rule assms(2) [OF ne nl eq ih])
    next
      case nb: False
      show ?thesis
      proof (cases "peek lx = CHR 0x0A")
        case True
        with ne nb have eq: "skip_whitespace_and_comments lx
            = skip_whitespace_and_comments (snd (advance (lx\<lparr>m_line := m_line lx + 1\<rparr>)))"
          by (subst skip_whitespace_and_comments.simps) (simp add: Let_def)
        have ih: "P (snd (advance (lx\<lparr>m_line := m_line lx + 1\<rparr>)))"
          using ne refl nb True by (rule "1.IH"(2))
        show ?thesis by (rule assms(3) [OF ne True eq ih])
      next
        case nn: False
        show ?thesis
        proof (cases "peek lx = CHR ''/'' \<and> ?comment")
          case True
          with ne nb nn have eq: "skip_whitespace_and_comments lx
              = skip_whitespace_and_comments (skip_comment lx)"
            by (subst skip_whitespace_and_comments.simps) (simp add: Let_def)
          have ih: "P (skip_comment lx)"
            using ne refl nb nn True [THEN conjunct1] True [THEN conjunct2]
            by (rule "1.IH"(3))
          show ?thesis by (rule assms(4) [OF ne eq ih])
        next
          case False
          with ne nb nn have eq: "skip_whitespace_and_comments lx = lx"
            by (subst skip_whitespace_and_comments.simps) (auto simp: Let_def)
          show ?thesis by (rule assms(5) [OF ne nn eq])
        qed
      qed
    qed
  qed
qed

lemma skip_whitespace_and_comments_line_ok:
  "line_ok lx \<Longrightarrow> line_ok (skip_whitespace_and_comments lx)"
proof (induction lx rule: skip_whitespace_and_comments_induct)
  case (End lx)
  then show ?case by simp
next
  case (Blank lx)
  from Blank(1,2) have "char_at (m_source lx) (m_current_pos lx) \<noteq> CHR 0x0A"
    by (simp add: peek_char_at)
  with Blank(5) have "line_ok (snd (advance lx))"
    by (rule line_ok_advance)
  with Blank(3,4) show ?case by simp
next
  case (Newline lx)
  from Newline(1,2) have "char_at (m_source lx) (m_current_pos lx) = CHR 0x0A"
    by (simp add: peek_char_at)
  with Newline(5) have "line_ok (snd (advance (lx\<lparr>m_line := m_line lx + 1\<rparr>)))"
    by (rule line_ok_advance_newline)
  with Newline(3,4) show ?case by simp
next
  case (Comment lx)
  from Comment(4) have "line_ok (skip_comment lx)"
    by (rule skip_comment_line_ok)
  with Comment(2,3) show ?case by simp
next
  case (Stop lx)
  then show ?case by simp
qed

text \<open>After blanks and comments the cursor is at the end or on no newline.\<close>

lemma skip_whitespace_and_comments_stops:
  "\<not> is_at_end (skip_whitespace_and_comments lx)
     \<Longrightarrow> peek (skip_whitespace_and_comments lx) \<noteq> CHR 0x0A"
proof (induction lx rule: skip_whitespace_and_comments_induct)
  case (End lx)
  then show ?case by simp
next
  case (Blank lx)
  then show ?case by simp
next
  case (Newline lx)
  then show ?case by simp
next
  case (Comment lx)
  then show ?case by simp
next
  case (Stop lx)
  then show ?case by simp
qed

lemma isalnum_not_newline: "isalnum c \<or> c = CHR ''_'' \<Longrightarrow> c \<noteq> CHR 0x0A"
  by (auto simp: isalnum_def isalpha_def isdigit_def)

lemma isdigit_not_newline: "isdigit c \<Longrightarrow> c \<noteq> CHR 0x0A"
  by (auto simp: isdigit_def)

lemma identifier_loop_line:
  "m_line (identifier_loop lx) = m_line lx"
  "line_ok lx \<Longrightarrow> line_ok (identifier_loop lx)"
proof (induction lx rule: identifier_loop.induct)
  case (1 lx)
  {
    case 1
    from "1.IH" show ?case
      by (subst identifier_loop.simps) (simp add: advance_def)
  next
    case 2
    show ?case
    proof (cases "isalnum (peek lx) \<or> peek lx = CHR ''_''")
      case True
      then have "\<not> is_at_end lx" by (rule isalnum_not_at_end)
      with True have "char_at (m_source lx) (m_current_pos lx) \<noteq> CHR 0x0A"
        using isalnum_not_newline [of "peek lx"] by (simp add: peek_char_at)
      with 2 have "line_ok (snd (advance lx))" by (rule line_ok_advance)
      with True "1.IH"(2) show ?thesis
        by (subst identifier_loop.simps) simp
    next
      case False
      with 2 show ?thesis
        by (subst identifier_loop.simps) simp
    qed
  }
qed

lemma number_loop_line:
  "m_line (number_loop lx) = m_line lx"
  "line_ok lx \<Longrightarrow> line_ok (number_loop lx)"
proof (induction lx rule: number_loop.induct)
  case (1 lx)
  {
    case 1
    from "1.IH" show ?case
      by (subst number_loop.simps) (simp add: advance_def)
  next
    case 2
    show ?case
    proof (cases "isdigit (peek lx)")
      case True
      then have "\<not> is_at_end lx" by (rule isdigit_not_at_end)
      with True have "char_at (m_source lx) (m_current_pos lx) \<noteq> CHR 0x0A"
        using isdigit_not_newline [of "peek lx"] by (simp add: peek_char_at)
      with 2 have "line_ok (snd (advance lx))" by (rule line_ok_advance)
      with True "1.IH"(2) show ?thesis
        by (subst number_loop.simps) simp
    next
      case False
      with 2 show ?thesis
        by (subst number_loop.simps) simp
    qed
  }
qed

lemma string_loop_line_ok: "line_ok lx \<Longrightarrow> line_ok (string_loop lx)"
proof (induction lx rule: string_loop.induct)
  case (1 lx)
  show ?case
  proof (cases "peek lx \<noteq> CHR 0x22 \<and> \<not> is_at_end lx")
    case True
    then have pk: "peek lx = char_at (m_source lx) (m_current_pos lx)"
      by (simp add: peek_char_at)
    have "line_ok (snd (advance (if peek lx = CHR 0x0A then lx\<lparr>m_line := m_line lx + 1\<rparr> else lx)))"
    proof (cases "peek lx = CHR 0x0A")
      case True
      with "1.prems" pk show ?thesis by (simp add: line_ok_advance_newline)
    next
      case False
      with "1.prems" pk show ?thesis by (simp add: line_ok_advance)
    qed
    with True "1.IH" show ?thesis
      by (subst string_loop.simps) simp
  next
    case False
    with "1.prems" show ?thesis
      by (subst string_loop.simps) auto
  qed
qed

lemma string_loop_stops: "is_at_end (string_loop lx) \<or> peek (string_loop lx) = CHR 0x22"
proof (induction lx rule: string_loop.induct)
  case (1 lx)
  show ?case
  proof (cases "peek lx \<noteq> CHR 0x22 \<and> \<not> is_at_end lx")
    case True
    with "1.IH" show ?thesis
      by (subst (1 2) string_loop.simps) simp
  next
    case False
    then show ?thesis
      by (subst (1 2) string_loop.simps) auto
  qed
qed

text \<open>The handlers keep \<open>line_ok\<close>, and their token carries the line they end on.\<close>

lemma handle_identifier_line:
  "t_line (fst (handle_identifier lx)) = m_line lx"
  "m_line (snd (handle_identifier lx)) = m_line lx"
  "line_ok lx \<Longrightarrow> line_ok (snd (handle_identifier lx))"
  by (simp_all add: handle_identifier_def Let_def make_token_def identifier_loop_line
      split: option.split)

lemma handle_number_line:
  "t_line (fst (handle_number lx)) = m_line lx"
  "m_line (snd (handle_number lx)) = m_line lx"
  "line_ok lx \<Longrightarrow> line_ok (snd (handle_number lx))"
  by (simp_all add: handle_number_def Let_def make_token_def number_loop_line)

lemma handle_string_line:
  "t_line (fst (handle_string lx)) = m_line (snd (handle_string lx))"
  "line_ok lx \<Longrightarrow> line_ok (snd (handle_string lx))"
proof -
  show "t_line (fst (handle_string lx)) = m_line (snd (handle_string lx))"
    by (simp add: handle_string_def Let_def make_token_def)
  assume "line_ok lx"
  then have s: "line_ok (string_loop lx)" by (rule string_loop_line_ok)
  show "line_ok (snd (handle_string lx))"
  proof (cases "is_at_end (string_loop lx)")
    case True
    with s show ?thesis
      by (simp add: handle_string_def Let_def line_ok_def)
  next
    case False
    have "peek (string_loop lx) = CHR 0x22"
      using False string_loop_stops [of lx] by simp
    with False have "char_at (m_source (string_loop lx)) (m_current_pos (string_loop lx)) \<noteq> CHR 0x0A"
      by (simp add: peek_char_at)
    with s have "line_ok (snd (advance (string_loop lx)))" by (rule line_ok_advance)
    with False show ?thesis
      by (simp add: handle_string_def Let_def)
  qed
qed

lemma span_jump_cleanD:
  assumes "span_jump_clean s (t, start, end)" and "t_type t = INCLUDE" and "k < 6"
  shows "char_at s (start + 1 + k) \<noteq> CHR 0x0A"
proof -
  from assms(1,2) have "list_all (\<lambda>k. char_at s (start + 1 + k) \<noteq> CHR 0x0A) [0..<6]"
    by (simp add: span_jump_clean_def)
  moreover have "k \<in> set [0..<6]"
    using assms(3) by simp
  ultimately show ?thesis
    unfolding list_all_iff by (rule bspec)
qed

lemma tokenize_switch_include:
  assumes "c = CHR ''#''" and "peek lx = CHR ''i''"
  shows "fst (tokenize_switch c lx [])
     = [make_token INCLUDE ''#include'' (lx\<lparr>m_current_pos := m_current_pos lx + 6\<rparr>)]"
  using assms by (simp add: tokenize_switch_def Let_def)

lemma spans_loop_prefix: "\<exists>rest. fst (spans_loop lx spans) = spans @ rest"
proof (induction lx spans rule: spans_loop.induct)
  case (1 lx spans)
  let ?lx1 = "skip_whitespace_and_comments lx"
  let ?c = "fst (advance ?lx1)" and ?lx2 = "snd (advance ?lx1)"
  let ?r = "tokenize_switch ?c ?lx2 []"
  let ?spans' = "spans @ map (\<lambda>t. (t, m_current_pos ?lx1, m_current_pos (snd ?r))) (fst ?r)"
  show ?case
  proof (cases "is_at_end lx \<or> is_at_end ?lx1")
    case True
    then have "spans_loop lx spans = (spans, if is_at_end lx then lx else ?lx1)"
      by (subst spans_loop.simps) (auto simp: Let_def)
    then show ?thesis by simp
  next
    case False
    then have f: "\<not> is_at_end lx" "\<not> is_at_end ?lx1" by simp_all
    have e: "spans_loop lx spans = spans_loop (snd ?r) ?spans'"
      using f by (subst spans_loop.simps) (simp add: Let_def case_prod_beta)
    from "1.IH" [OF f(1) refl f(2) prod.collapse prod.collapse]
    obtain rest where "fst (spans_loop (snd ?r) ?spans') = ?spans' @ rest"
      by blast
    then show ?thesis
      unfolding e by simp
  qed
qed

lemma line_ok_cerr [simp]: "line_ok (lx\<lparr>lex_cerr := e\<rparr>) = line_ok lx"
  by (simp add: line_ok_def)

text \<open>
  One round of the main loop, started on a character that is not a newline, with the
  line counter right, and with no newline among the six characters of the jump when
  the round takes it: the counter is right afterwards, the token pushed carries the
  line of the end of the round, and a token that is no string literal and no sentinel
  carries the line of the start of the round as well.
\<close>

lemma tokenize_switch_line:
  assumes ok: "line_ok lx1" and ne: "\<not> is_at_end lx1" and nl: "peek lx1 \<noteq> CHR 0x0A"
    and clean: "\<And>k. fst (advance lx1) = CHR ''#'' \<Longrightarrow> peek (snd (advance lx1)) = CHR ''i''
        \<Longrightarrow> k < 6 \<Longrightarrow> char_at (m_source lx1) (m_current_pos lx1 + 1 + k) \<noteq> CHR 0x0A"
    and r_def: "r = tokenize_switch (fst (advance lx1)) (snd (advance lx1)) []"
  shows "line_ok (snd r)"
    and "\<forall>t \<in> set (fst r). t_line t = m_line (snd r)"
    and "\<forall>t \<in> set (fst r). t_type t \<noteq> STRING_LITERAL \<and> t_type t \<noteq> END_OF_FILE
           \<longrightarrow> t_line t = m_line lx1"
proof -
  let ?c = "fst (advance lx1)" and ?lx2 = "snd (advance lx1)"
  let ?s = "m_source lx1" and ?p = "m_current_pos lx1"
  have c: "?c = char_at ?s ?p" by (simp add: advance_def)
  have cn: "char_at ?s ?p \<noteq> CHR 0x0A"
    using ne nl by (simp add: peek_char_at)
  have ok2: "line_ok ?lx2"
    using ok cn by (rule line_ok_advance)
  have l2: "m_line ?lx2 = m_line lx1" by (simp add: advance_def)
  have prev: "?lx2\<lparr>m_current_pos := m_current_pos ?lx2 - 1\<rparr> = lx1"
    by (simp add: advance_def)
  have inc: "line_ok (?lx2\<lparr>m_current_pos := m_current_pos ?lx2 + 6\<rparr>)"
    if "?c = CHR ''#''" and "peek ?lx2 = CHR ''i''"
  proof -
    have "newlines_before ?s (?p + 1 + 6) = newlines_before ?s (?p + 1)"
      using clean [OF that] by (intro newlines_before_skip)
    with ok2 show ?thesis
      by (simp add: line_ok_def advance_def)
  qed
  note hs = handle_string_line [of ?lx2] handle_string_cases [of ?lx2]
  note hn = handle_number_line [of lx1]
  note hi = handle_identifier_line [of lx1]
  show "line_ok (snd r)"
    unfolding r_def tokenize_switch_def prev
    using ok ok2 inc hs(2) hn(3) hi(3)
    by (simp add: case_prod_beta Let_def)
  show "\<forall>t \<in> set (fst r). t_line t = m_line (snd r)"
    unfolding r_def tokenize_switch_def prev
    using hs(1) hn(1,2) hi(1,2)
    by (simp add: case_prod_beta Let_def make_token_def make_token1_def)
  show "\<forall>t \<in> set (fst r). t_type t \<noteq> STRING_LITERAL \<and> t_type t \<noteq> END_OF_FILE
           \<longrightarrow> t_line t = m_line lx1"
    unfolding r_def tokenize_switch_def prev
    using hs(3) hn(1) hi(1) l2
    by (auto simp: case_prod_beta Let_def make_token_def make_token1_def)
qed

text \<open>
  \<open>span_line_ok s (t, start, end)\<close>: the line of the token is one more than the number of
  newlines of \<open>s\<close> before \<open>end\<close>, and, for a token that is neither a string literal nor
  an \<open>END_OF_FILE\<close> token, also one more than the number of newlines before \<open>start\<close>.
\<close>

definition span_line_ok :: "string \<Rightarrow> Token \<times> nat \<times> nat \<Rightarrow> bool" where
  "span_line_ok s x =
     (case x of (t, start, end) \<Rightarrow>
        t_line t = 1 + newlines_before s end
        \<and> (t_type t \<noteq> STRING_LITERAL \<and> t_type t \<noteq> END_OF_FILE
             \<longrightarrow> t_line t = 1 + newlines_before s start))"

lemma spans_loop_line:
  "line_ok lx \<Longrightarrow> list_all (span_jump_clean (m_source lx)) (fst (spans_loop lx spans))
     \<Longrightarrow> list_all (span_line_ok (m_source lx)) spans
     \<Longrightarrow> list_all (span_line_ok (m_source lx)) (fst (spans_loop lx spans))
         \<and> line_ok (snd (spans_loop lx spans))
         \<and> m_source (snd (spans_loop lx spans)) = m_source lx"
proof (induction lx spans rule: spans_loop.induct)
  case (1 lx spans)
  let ?lx1 = "skip_whitespace_and_comments lx"
  let ?c = "fst (advance ?lx1)" and ?lx2 = "snd (advance ?lx1)"
  let ?r = "tokenize_switch ?c ?lx2 []"
  let ?spans' = "spans @ map (\<lambda>t. (t, m_current_pos ?lx1, m_current_pos (snd ?r))) (fst ?r)"
  have ok1: "line_ok ?lx1"
    using "1.prems"(1) by (rule skip_whitespace_and_comments_line_ok)
  have s1: "m_source ?lx1 = m_source lx"
    by (rule skip_whitespace_and_comments_source)
  show ?case
  proof (cases "is_at_end lx \<or> is_at_end ?lx1")
    case True
    then have "spans_loop lx spans = (spans, if is_at_end lx then lx else ?lx1)"
      by (subst spans_loop.simps) (auto simp: Let_def)
    with "1.prems" ok1 s1 show ?thesis by simp
  next
    case False
    then have f: "\<not> is_at_end lx" "\<not> is_at_end ?lx1" by simp_all
    have e: "spans_loop lx spans = spans_loop (snd ?r) ?spans'"
      using f by (subst spans_loop.simps) (simp add: Let_def case_prod_beta)
    have nl: "peek ?lx1 \<noteq> CHR 0x0A"
      using f(2) by (rule skip_whitespace_and_comments_stops)
    have s3: "m_source (snd ?r) = m_source lx"
      by (simp add: tokenize_switch_source advance_def s1)
    obtain rest where "fst (spans_loop (snd ?r) ?spans') = ?spans' @ rest"
      using spans_loop_prefix [of "snd ?r" ?spans'] by blast
    with "1.prems"(2) have j: "list_all (span_jump_clean (m_source lx)) ?spans'"
      unfolding e by simp
    have clean1: "char_at (m_source ?lx1) (m_current_pos ?lx1 + 1 + k) \<noteq> CHR 0x0A"
      if "?c = CHR ''#''" and "peek ?lx2 = CHR ''i''" and "k < 6" for k
    proof -
      let ?t = "make_token INCLUDE ''#include'' (?lx2\<lparr>m_current_pos := m_current_pos ?lx2 + 6\<rparr>)"
      have "fst ?r = [?t]"
        using that(1,2) by (rule tokenize_switch_include)
      with j have "span_jump_clean (m_source lx) (?t, m_current_pos ?lx1, m_current_pos (snd ?r))"
        by simp
      moreover have "t_type ?t = INCLUDE"
        by (simp add: make_token_def)
      ultimately show ?thesis
        using that(3) unfolding s1 by (rule span_jump_cleanD)
    qed
    note sw = tokenize_switch_line [OF ok1 f(2) nl clean1 refl]
    have new: "list_all (span_line_ok (m_source lx))
        (map (\<lambda>t. (t, m_current_pos ?lx1, m_current_pos (snd ?r))) (fst ?r))"
      using sw ok1 s1 s3
      by (auto simp: list_all_iff span_line_ok_def line_ok_def)
    have "list_all (span_line_ok (m_source (snd ?r))) (fst (spans_loop (snd ?r) ?spans'))
        \<and> line_ok (snd (spans_loop (snd ?r) ?spans'))
        \<and> m_source (snd (spans_loop (snd ?r) ?spans')) = m_source (snd ?r)"
      using "1.prems" new sw(1)
      by (intro "1.IH" [OF f(1) refl f(2) prod.collapse prod.collapse]) (simp_all add: s3 e)
    then show ?thesis
      by (simp add: e s3)
  qed
qed

text \<open>
  Claim C6, as stated, fails. In the source \<open>#i\<close>, newline, \<open>abcd;\<close> the lexer reads \<open>#\<close>,
  sees \<open>i\<close> and adds 6 to the cursor: the newline is jumped over and not counted, and
  the semicolon, which stands after one newline, gets line 1. (In the second source, a
  string literal with a newline inside, the literal gets line 2, the line it ends on:
  no newline stands before its opening quote, one stands before its end.)
\<close>

theorem C6_line_after_include_counterexample:
  "tokenize_spans ''#i\<newline>abcd;''
     = [(\<lparr>t_type = INCLUDE, t_value = ''#include'', t_line = 1\<rparr>, 0, 7),
        (\<lparr>t_type = SEMICOLON, t_value = '';'', t_line = 1\<rparr>, 7, 8),
        (\<lparr>t_type = END_OF_FILE, t_value = [], t_line = 1\<rparr>, 8, 8)]
   \<and> newlines_before ''#i\<newline>abcd;'' 7 = 1
   \<and> tokenize_spans [CHR 0x22, CHR ''a'', CHR 0x0A, CHR ''b'', CHR 0x22]
     = [(\<lparr>t_type = STRING_LITERAL, t_value = ''a\<newline>b'', t_line = 2\<rparr>, 0, 5),
        (\<lparr>t_type = END_OF_FILE, t_value = [], t_line = 2\<rparr>, 5, 5)]
   \<and> newlines_before [CHR 0x22, CHR ''a'', CHR 0x0A, CHR ''b'', CHR 0x22] 0 = 0
   \<and> newlines_before [CHR 0x22, CHR ''a'', CHR 0x0A, CHR ''b'', CHR 0x22] 5 = 1"
  by code_simp

text \<open>
  Claim C6, amended. Let no newline stand among the six characters that the lexer
  jumps over where it emits an \<open>INCLUDE\<close> token (a \<open>#\<close> in a comment or in a string
  literal starts no jump and is not restricted). Then every token of \<open>tokenize\<close> carries
  the line \<open>N + 1\<close>, where \<open>N\<close> is the number of newlines in the source before the cursor
  at which the token was pushed, the end of the token; newlines inside a string literal
  are counted. For every token that is neither a string literal nor an \<open>END_OF_FILE\<close>
  token, \<open>N\<close> is also the number of newlines before the first character of the token.
\<close>

theorem C6_token_lines:
  assumes "include_jumps_clean source"
  shows "map fst (tokenize_spans source) = tokenize source
    \<and> (\<forall>(t, start, end) \<in> set (tokenize_spans source).
          t_line t = 1 + newlines_before source end
          \<and> (t_type t \<noteq> STRING_LITERAL \<and> t_type t \<noteq> END_OF_FILE
               \<longrightarrow> t_line t = 1 + newlines_before source start))"
proof
  show "map fst (tokenize_spans source) = tokenize source"
    by (rule tokenize_spans_tokens)
  let ?r = "spans_loop (new_Lexer source) []"
  have ok: "line_ok (new_Lexer source)"
    by (simp add: line_ok_def new_Lexer_def newlines_before_def)
  have j: "list_all (span_jump_clean (m_source (new_Lexer source))) (fst ?r)"
    using assms
    by (simp add: include_jumps_clean_def tokenize_spans_def case_prod_beta new_Lexer_def)
  have "list_all (span_line_ok (m_source (new_Lexer source))) (fst ?r)
      \<and> line_ok (snd ?r) \<and> m_source (snd ?r) = m_source (new_Lexer source)"
    using ok j by (rule spans_loop_line) simp
  then have l: "list_all (span_line_ok source) (fst ?r)" and k: "line_ok (snd ?r)"
    and s: "m_source (snd ?r) = source"
    by (simp_all add: new_Lexer_def)
  have "span_line_ok source
      (make_token END_OF_FILE [] (snd ?r), m_current_pos (snd ?r), m_current_pos (snd ?r))"
    using k s by (simp add: span_line_ok_def make_token_def line_ok_def)
  with l have "list_all (span_line_ok source) (tokenize_spans source)"
    by (simp add: tokenize_spans_def case_prod_beta)
  then show "\<forall>(t, start, end) \<in> set (tokenize_spans source).
          t_line t = 1 + newlines_before source end
          \<and> (t_type t \<noteq> STRING_LITERAL \<and> t_type t \<noteq> END_OF_FILE
               \<longrightarrow> t_line t = 1 + newlines_before source start)"
    by (auto simp: list_all_iff span_line_ok_def)
qed

text \<open>
  The witness. First \<open>#include\<close>, a newline, and a semicolon: the jump is taken, over no
  newline, and the semicolon stands after one newline and carries line 2, by the
  theorem one more than the number of newlines before its start (cursor 9) and before
  its end (cursor 10). Then a comment that holds \<open>#if\<close> directly before its newline: no
  jump is taken there, the hypothesis holds, and \<open>int\<close> (cursor 11 to 14) carries line 2.
\<close>

theorem C6_token_lines_witness:
  "include_jumps_clean ''#include\<newline>;''
   \<and> tokenize_spans ''#include\<newline>;''
     = [(\<lparr>t_type = INCLUDE, t_value = ''#include'', t_line = 1\<rparr>, 0, 7),
        (\<lparr>t_type = IDENTIFIER, t_value = ''e'', t_line = 1\<rparr>, 7, 8),
        (\<lparr>t_type = SEMICOLON, t_value = '';'', t_line = 2\<rparr>, 9, 10),
        (\<lparr>t_type = END_OF_FILE, t_value = [], t_line = 2\<rparr>, 10, 10)]
   \<and> map fst (tokenize_spans ''#include\<newline>;'') = tokenize ''#include\<newline>;''
   \<and> 1 + newlines_before ''#include\<newline>;'' 9 = 2
   \<and> 1 + newlines_before ''#include\<newline>;'' 10 = 2
   \<and> include_jumps_clean ''// see #if\<newline>int x''
   \<and> tokenize_spans ''// see #if\<newline>int x''
     = [(\<lparr>t_type = INT_KW, t_value = ''int'', t_line = 2\<rparr>, 11, 14),
        (\<lparr>t_type = IDENTIFIER, t_value = ''x'', t_line = 2\<rparr>, 15, 16),
        (\<lparr>t_type = END_OF_FILE, t_value = [], t_line = 2\<rparr>, 16, 16)]
   \<and> 1 + newlines_before ''// see #if\<newline>int x'' 11 = 2
   \<and> 1 + newlines_before ''// see #if\<newline>int x'' 14 = 2"
proof -
  have a: "include_jumps_clean ''#include\<newline>;''"
    by code_simp
  have b: "tokenize_spans ''#include\<newline>;''
     = [(\<lparr>t_type = INCLUDE, t_value = ''#include'', t_line = 1\<rparr>, 0, 7),
        (\<lparr>t_type = IDENTIFIER, t_value = ''e'', t_line = 1\<rparr>, 7, 8),
        (\<lparr>t_type = SEMICOLON, t_value = '';'', t_line = 2\<rparr>, 9, 10),
        (\<lparr>t_type = END_OF_FILE, t_value = [], t_line = 2\<rparr>, 10, 10)]"
    by code_simp
  have a': "include_jumps_clean ''// see #if\<newline>int x''"
    by code_simp
  have b': "tokenize_spans ''// see #if\<newline>int x''
     = [(\<lparr>t_type = INT_KW, t_value = ''int'', t_line = 2\<rparr>, 11, 14),
        (\<lparr>t_type = IDENTIFIER, t_value = ''x'', t_line = 2\<rparr>, 15, 16),
        (\<lparr>t_type = END_OF_FILE, t_value = [], t_line = 2\<rparr>, 16, 16)]"
    by code_simp
  note c = C6_token_lines [OF a]
  note c' = C6_token_lines [OF a']
  from c have 1: "map fst (tokenize_spans ''#include\<newline>;'') = tokenize ''#include\<newline>;''"
    by blast
  from c have "\<forall>(t, start, end) \<in> set (tokenize_spans ''#include\<newline>;'').
          t_line t = 1 + newlines_before ''#include\<newline>;'' end
          \<and> (t_type t \<noteq> STRING_LITERAL \<and> t_type t \<noteq> END_OF_FILE
               \<longrightarrow> t_line t = 1 + newlines_before ''#include\<newline>;'' start)"
    by blast
  then have 2: "1 + newlines_before ''#include\<newline>;'' 9 = 2
      \<and> 1 + newlines_before ''#include\<newline>;'' 10 = 2"
    unfolding b by simp
  from c' have "\<forall>(t, start, end) \<in> set (tokenize_spans ''// see #if\<newline>int x'').
          t_line t = 1 + newlines_before ''// see #if\<newline>int x'' end
          \<and> (t_type t \<noteq> STRING_LITERAL \<and> t_type t \<noteq> END_OF_FILE
               \<longrightarrow> t_line t = 1 + newlines_before ''// see #if\<newline>int x'' start)"
    by blast
  then have 3: "1 + newlines_before ''// see #if\<newline>int x'' 11 = 2
      \<and> 1 + newlines_before ''// see #if\<newline>int x'' 14 = 2"
    unfolding b' by simp
  from a b 1 2 a' b' 3 show ?thesis by blast
qed

end
